theory Spec2Isabelle
  imports Main "HOL-Library.AList" "HOL-Library.Sublist" "HOL-Library.Multiset"
begin

section \<open>fhir\_inspect: the paginated fetch loop and the structural profiler\<close>

text \<open>
  A shallow embedding of \<^verbatim>\<open>src/fhir_inspect.py\<close>. Python objects that the script mutates in
  place (the \<^verbatim>\<open>items\<close> dictionary, the console, the live display) are passed and returned
  explicitly. Every exception the script can raise is a value \<open>Inl e\<close> of a sum type.
  A Python \<^verbatim>\<open>dict\<close> is an association list with distinct keys in insertion order:
  \<open>map_of\<close> reads it and \<open>AList.update\<close> writes it (an existing key keeps its position,
  a new key goes to the end), as Python dictionaries do. A \<^verbatim>\<open>str\<close> is a list of characters.
\<close>

subsection \<open>Exceptions\<close>

datatype error =
    FHIRValidationError
  | ValueError
  | TypeError
  | KeyError
  | AttributeError
  | Exception string

subsection \<open>The string operations used for the cursor\<close>

text \<open>
  \<^verbatim>\<open>s.split(sep)\<close> for a non-empty separator: the text is scanned from the left, every
  occurrence found ends the current piece and the scan goes on behind it. The caller
  handles the empty separator, for which Python raises \<^verbatim>\<open>ValueError\<close>.
\<close>

function split_from :: "string \<Rightarrow> string \<Rightarrow> string \<Rightarrow> string list" where
  "split_from sep piece [] = [piece]"
| "split_from sep piece (c # cs) =
     (if sep \<noteq> [] \<and> take (length sep) (c # cs) = sep
      then piece # split_from sep [] (drop (length sep) (c # cs))
      else split_from sep (piece @ [c]) cs)"
  by pat_completeness auto
termination
  by (relation "measure (\<lambda>(sep, piece, s). length s)") auto

definition str_split :: "string \<Rightarrow> string \<Rightarrow> error + string list" where
  "str_split s sep = (if sep = [] then Inl ValueError else Inr (split_from sep [] s))"

definition str_lstrip :: "string \<Rightarrow> char \<Rightarrow> string" where
  "str_lstrip s ch = dropWhile (\<lambda>c. c = ch) s"

text \<open>
  The right-hand side of line 188:
  \<^verbatim>\<open>link.url.split(capability_statement.implementation.url)[-1].lstrip("/")\<close>.
\<close>

definition derive_next_url :: "string \<Rightarrow> string \<Rightarrow> error + string" where
  "derive_next_url impl_url link_url =
     (case str_split link_url impl_url of
        Inl e \<Rightarrow> Inl e
      | Inr pieces \<Rightarrow> Inr (str_lstrip (last pieces) (CHR ''/'')))"

record link =
  link_relation :: string
  link_url :: string

text \<open>
  Lines 185 to 189: the first link whose relation is \<^verbatim>\<open>"next"\<close> gives the new cursor;
  \<open>None\<close> stands for the value \<^verbatim>\<open>False\<close> that \<^verbatim>\<open>next_url\<close> keeps when there is none.
\<close>

fun scan_links :: "string \<Rightarrow> link list \<Rightarrow> error + string option" where
  "scan_links impl_url [] = Inr None"
| "scan_links impl_url (l # ls) =
     (if link_relation l = ''next''
      then (case derive_next_url impl_url (link_url l) of
              Inl e \<Rightarrow> Inl e
            | Inr u \<Rightarrow> Inr (Some u))
      else scan_links impl_url ls)"

subsection \<open>Records and the frequency tree\<close>

text \<open>
  A record is the value \<^verbatim>\<open>entry.resource.as_json()\<close>: a dictionary whose values are
  dictionaries, lists, or anything else (strings, numbers, booleans), which the script only
  counts and prints. The type \<open>'a\<close> holds those other values.
\<close>

datatype 'a json =
    Dict "(string \<times> 'a json) list"
  | Array "'a json list"
  | Scalar 'a

text \<open>
  The values of the dictionary \<^verbatim>\<open>items\<close> (lines 281 to 285): a two-element list
  \<^verbatim>\<open>[count, dict()]\<close> is a \<open>Leaf\<close> with its count and its histogram, a dictionary is a
  \<open>Branch\<close>. \<^verbatim>\<open>items\<close> itself is a \<open>Branch\<close>.
\<close>

datatype node =
    Leaf int "(string \<times> int) list"
  | Branch "(string \<times> node) list"

text \<open>
  The variables that the nested functions read from the scopes around them:
  \<^verbatim>\<open>max_item_str_len\<close>, \<^verbatim>\<open>max_item_count\<close>, \<^verbatim>\<open>inspect_items_pe\<close>, \<^verbatim>\<open>max_level_pe\<close>,
  and Python's built-in \<^verbatim>\<open>str\<close> on the values of a record, which is not part of the
  script and is taken as a parameter.
\<close>

definition max_item_str_len :: nat where
  "max_item_str_len = 50"

definition max_item_count :: nat where
  "max_item_count = 50"

text \<open>Line 301: the conditional expression that shortens a long string.\<close>

definition shorten :: "nat \<Rightarrow> string \<Rightarrow> string" where
  "shorten max_len s =
     (if length s > max_len + 3 then take max_len s @ ''...'' else s)"

text \<open>Lines 302 to 305: one more occurrence of the string \<open>s\<close> in a histogram.\<close>

definition count_value :: "string \<Rightarrow> (string \<times> int) list \<Rightarrow> (string \<times> int) list" where
  "count_value s h =
     (case map_of h s of
        Some c \<Rightarrow> AList.update s (c + 1) h
      | None \<Rightarrow> AList.update s 1 h)"

text \<open>
  Lines 291 to 305. \<open>item_store_si\<close> is whatever \<^verbatim>\<open>process_entry\<close> was given: when it is
  a list (a \<open>Leaf\<close>), no string is a member of it and the assignment in line 295 raises
  \<^verbatim>\<open>TypeError\<close>; when the key holds a dictionary (a \<open>Branch\<close>), reading its index
  \<^verbatim>\<open>0\<close> in line 293 raises \<^verbatim>\<open>KeyError\<close>.
\<close>

fun store_item ::
  "bool \<Rightarrow> nat \<Rightarrow> ('a json \<Rightarrow> string) \<Rightarrow> string \<Rightarrow> 'a json \<Rightarrow> node \<Rightarrow> error + node"
where
  "store_item inspect_items_pe max_len str key_si subvalue_si (Leaf n h) = Inl TypeError"
| "store_item inspect_items_pe max_len str key_si subvalue_si (Branch d) =
     (case map_of d key_si of
        Some (Branch b) \<Rightarrow> Inl KeyError
      | Some (Leaf n h) \<Rightarrow>
          Inr (Branch (AList.update key_si
            (Leaf (n + 1)
               (if inspect_items_pe then count_value (shorten max_len (str subvalue_si)) h else h))
            d))
      | None \<Rightarrow>
          Inr (Branch (AList.update key_si
            (Leaf 1
               (if inspect_items_pe then count_value (shorten max_len (str subvalue_si)) [] else []))
            d)))"

text \<open>
  Lines 287 to 322. \<open>process_entry\<close> is the loop over \<^verbatim>\<open>entry.items()\<close>, \<open>process_values\<close>
  the loop over the list \<^verbatim>\<open>value\<close>, \<open>process_value\<close> the body of that loop. The recursive
  call works on the object \<^verbatim>\<open>item_store[key]\<close> in place, so its result is written back
  under \<open>key\<close>.
\<close>

fun process_entry ::
    "bool \<Rightarrow> nat \<Rightarrow> ('a json \<Rightarrow> string) \<Rightarrow> int \<Rightarrow>
     (string \<times> 'a json) list \<Rightarrow> node \<Rightarrow> int \<Rightarrow> error + node"
  and process_values ::
    "bool \<Rightarrow> nat \<Rightarrow> ('a json \<Rightarrow> string) \<Rightarrow> int \<Rightarrow>
     string \<Rightarrow> 'a json list \<Rightarrow> node \<Rightarrow> int \<Rightarrow> error + node"
  and process_value ::
    "bool \<Rightarrow> nat \<Rightarrow> ('a json \<Rightarrow> string) \<Rightarrow> int \<Rightarrow>
     string \<Rightarrow> 'a json \<Rightarrow> node \<Rightarrow> int \<Rightarrow> error + node"
where
  "process_entry ins ml str max_level_pe [] item_store level = Inr item_store"
| "process_entry ins ml str max_level_pe ((key, Array vs) # rest) item_store level =
     (case process_values ins ml str max_level_pe key vs item_store level of
        Inl e \<Rightarrow> Inl e
      | Inr item_store' \<Rightarrow> process_entry ins ml str max_level_pe rest item_store' level)"
| "process_entry ins ml str max_level_pe ((key, v) # rest) item_store level =
     (case process_value ins ml str max_level_pe key v item_store level of
        Inl e \<Rightarrow> Inl e
      | Inr item_store' \<Rightarrow> process_entry ins ml str max_level_pe rest item_store' level)"
| "process_values ins ml str max_level_pe key [] item_store level = Inr item_store"
| "process_values ins ml str max_level_pe key (subvalue # vs) item_store level =
     (case process_value ins ml str max_level_pe key subvalue item_store level of
        Inl e \<Rightarrow> Inl e
      | Inr item_store' \<Rightarrow> process_values ins ml str max_level_pe key vs item_store' level)"
| "process_value ins ml str max_level_pe key (Dict flds) item_store level =
     (if level < max_level_pe then
        (case item_store of
           Leaf n h \<Rightarrow> Inl TypeError
         | Branch d \<Rightarrow>
             (case process_entry ins ml str max_level_pe flds
                     (case map_of d key of None \<Rightarrow> Branch [] | Some child \<Rightarrow> child)
                     (level + 1) of
                Inl e \<Rightarrow> Inl e
              | Inr child' \<Rightarrow> Inr (Branch (AList.update key child' d))))
      else store_item ins ml str key (Dict flds) item_store)"
| "process_value ins ml str max_level_pe key subvalue item_store level =
     store_item ins ml str key subvalue item_store"

subsection \<open>Rendering the tree\<close>

text \<open>
  Line 341: \<^verbatim>\<open>sorted(..., key=lambda n: n[1], reverse=True)\<close> orders the pairs by falling
  count and keeps pairs of equal count in the order they had (Python's sort is stable, also
  with \<^verbatim>\<open>reverse=True\<close>); \<^verbatim>\<open>[:max_item_count]\<close> keeps the first pairs;
  \<^verbatim>\<open>dict(...)\<close> inserts them one after the other into a new dictionary.
\<close>

definition sorted_reverse :: "(string \<times> int) list \<Rightarrow> (string \<times> int) list" where
  "sorted_reverse pairs = sort_key (\<lambda>n. - snd n) pairs"

definition dict_of :: "('k \<times> 'v) list \<Rightarrow> ('k \<times> 'v) list" where
  "dict_of pairs = foldl (\<lambda>d (k, v). AList.update k v d) [] pairs"

definition top_values :: "nat \<Rightarrow> (string \<times> int) list \<Rightarrow> (string \<times> int) list" where
  "top_values max_count h = dict_of (take max_count (sorted_reverse h))"

text \<open>
  What \<^verbatim>\<open>build_tree\<close> adds to the \<^verbatim>\<open>rich\<close> tree: for a leaf one line with the key, the
  count and, when values are inspected, the pairs printed behind them; for a branch a
  group with the key and the lines of its children.
\<close>

datatype view =
    Line string int "(string \<times> int) list option"
  | Group string "view list"

text \<open>
  Lines 331 to 349. The assignment \<^verbatim>\<open>value[1] = dict(...)\<close> in line 341 writes into the
  leaf that \<^verbatim>\<open>items\<close> holds, so \<open>build_tree\<close> returns the dictionary as it is afterwards
  together with the view.
\<close>

fun build_tree ::
  "bool \<Rightarrow> nat \<Rightarrow> (string \<times> node) list \<Rightarrow> view list \<times> (string \<times> node) list"
where
  "build_tree inspect_items max_count [] = ([], [])"
| "build_tree inspect_items max_count ((key, Leaf n h) # rest) =
     (let h' = (if inspect_items then top_values max_count h else h);
          (views, rest') = build_tree inspect_items max_count rest
      in (Line key n (if inspect_items then Some h' else None) # views,
          (key, Leaf n h') # rest'))"
| "build_tree inspect_items max_count ((key, Branch d) # rest) =
     (let (sub, d') = build_tree inspect_items max_count d;
          (views, rest') = build_tree inspect_items max_count rest
      in (Group key sub # views, (key, Branch d') # rest'))"

subsection \<open>The server, bundles and the console\<close>

text \<open>
  A bundle as the script reads it: \<^verbatim>\<open>bundle.total\<close>, \<^verbatim>\<open>bundle.entry\<close> and
  \<^verbatim>\<open>bundle.link\<close>, each of which is \<^verbatim>\<open>None\<close> when the page does not have it. An entry is
  given by its resource, of type \<open>'r\<close>.
\<close>

record 'r fhir_bundle =
  bundle_total :: "int option"
  bundle_entry :: "'r list option"
  bundle_link :: "link list option"

text \<open>
  The part of \<^verbatim>\<open>FHIRClient\<close> that the script uses: \<^verbatim>\<open>fc.server.request_json(path)\<close>, the
  constructor \<^verbatim>\<open>Bundle(jsondict=ret, strict=...)\<close>, and \<^verbatim>\<open>resource.as_json()\<close>. They belong
  to the library \<^verbatim>\<open>fhirclient\<close> and are parameters here; the first two may raise. Of the
  capability statement the script reads \<^verbatim>\<open>implementation.url\<close>. The model covers
  capability statements and links whose URLs are strings, and entries that have a
  resource.
\<close>

record ('w, 'r, 'a) fhir_client =
  request_json :: "string \<Rightarrow> error + 'w"
  Bundle :: "'w \<Rightarrow> bool \<Rightarrow> error + 'r fhir_bundle"
  as_json :: "'r \<Rightarrow> (string \<times> 'a json) list"

record capability_statement =
  implementation_url :: string

text \<open>What \<^verbatim>\<open>function_to_call\<close> receives: the record as JSON or the resource object.\<close>

datatype ('a, 'r) passed =
    As_json "(string \<times> 'a json) list"
  | As_object 'r

text \<open>The lines that \<^verbatim>\<open>fetch_resources\<close> prints on the console.\<close>

datatype message =
    Error_while_reading error
  | No_resources_found string
  | Fetching_resources "int option" string
  | Notice_validation_off
  | Got_validation_error
  | Reached_limit int
  | Received_of int "int option"

text \<open>
  What the loop changes: the counter \<^verbatim>\<open>received\<close>, the state that \<^verbatim>\<open>function_to_call\<close>
  works on (\<^verbatim>\<open>function_params\<close>), the console, the texts given to \<^verbatim>\<open>live.update\<close>, and
  the paths requested from the server so far.
\<close>

record 's fetch_state =
  received :: int
  sink :: 's
  console :: "message list"
  live :: "(int \<times> int option) list"
  requests :: "string list"

text \<open>Lines 68 to 97.\<close>

definition bundle_read_from ::
  "string \<Rightarrow> ('w, 'r, 'a) fhir_client \<Rightarrow> bool \<Rightarrow> error + 'r fhir_bundle"
where
  "bundle_read_from path fc novalidation =
     (if path = [] then Inl (Exception ''Cannot read resource without REST path.'')
      else (case request_json fc path of
              Inl e \<Rightarrow> Inl e
            | Inr ret \<Rightarrow> if novalidation then Bundle fc ret False else Bundle fc ret True))"

text \<open>Lines 168 to 172: the loop over \<^verbatim>\<open>bundle.entry\<close>.\<close>

fun call_for_entries ::
  "('w, 'r, 'a) fhir_client \<Rightarrow> (('a, 'r) passed \<Rightarrow> 's \<Rightarrow> error + 's) \<Rightarrow> bool \<Rightarrow>
   'r list \<Rightarrow> 's \<Rightarrow> error + 's"
where
  "call_for_entries fc function_to_call pass_entry_as_json [] s = Inr s"
| "call_for_entries fc function_to_call pass_entry_as_json (resource # es) s =
     (case function_to_call
             (if pass_entry_as_json then As_json (as_json fc resource) else As_object resource) s of
        Inl e \<Rightarrow> Inl e
      | Inr s' \<Rightarrow> call_for_entries fc function_to_call pass_entry_as_json es s')"

text \<open>
  Lines 164 to 180, for a bundle whose entry list is \<open>es\<close>. The result says whether the
  \<^verbatim>\<open>break\<close> of line 180 was taken.
\<close>

definition handle_entries ::
  "('w, 'r, 'a) fhir_client \<Rightarrow> int option \<Rightarrow> (('a, 'r) passed \<Rightarrow> 's \<Rightarrow> error + 's) \<Rightarrow> bool \<Rightarrow>
   int option \<Rightarrow> 'r list \<Rightarrow> 's fetch_state \<Rightarrow> error + ('s fetch_state \<times> bool)"
where
  "handle_entries fc limit function_to_call pass_entry_as_json tot es st =
     (let received' = received st + int (length es) in
      case call_for_entries fc function_to_call pass_entry_as_json es (sink st) of
        Inl e \<Rightarrow> Inl e
      | Inr s' \<Rightarrow>
          (let st' = st\<lparr>received := received', sink := s',
                        live := live st @ [(received', tot)]\<rparr>
           in case limit of
                None \<Rightarrow> Inr (st', False)
              | Some l \<Rightarrow>
                  if l \<le> received'
                  then Inr (st'\<lparr>console := console st' @ [Reached_limit l]\<rparr>, True)
                  else Inr (st', False)))"

text \<open>
  One pass through the body of \<^verbatim>\<open>while True\<close> (lines 154 to 191). The result is the state
  and the next cursor, or \<open>None\<close> for the cursor when a \<^verbatim>\<open>break\<close> was taken; an exception
  that leaves the loop is \<open>Inl\<close>. Iterating over \<^verbatim>\<open>bundle.link\<close> when it is \<^verbatim>\<open>None\<close>
  raises \<^verbatim>\<open>TypeError\<close>.
\<close>

definition loop_body ::
  "('w, 'r, 'a) fhir_client \<Rightarrow> capability_statement \<Rightarrow> int option \<Rightarrow> bool \<Rightarrow>
   (('a, 'r) passed \<Rightarrow> 's \<Rightarrow> error + 's) \<Rightarrow> bool \<Rightarrow> int option \<Rightarrow>
   string \<Rightarrow> 's fetch_state \<Rightarrow> error + ('s fetch_state \<times> string option)"
where
  "loop_body fc cs limit novalidation function_to_call pass_entry_as_json tot next_url st =
     (let st0 = (if next_url = [] then st else st\<lparr>requests := requests st @ [next_url]\<rparr>) in
      case bundle_read_from next_url fc novalidation of
        Inl FHIRValidationError \<Rightarrow>
          Inr (st0\<lparr>console := console st0 @ [Got_validation_error]\<rparr>, None)
      | Inl e \<Rightarrow> Inl e
      | Inr bundle \<Rightarrow>
          (case (case bundle_entry bundle of
                   None \<Rightarrow> Inr (st0, False)
                 | Some es \<Rightarrow>
                     handle_entries fc limit function_to_call pass_entry_as_json tot es st0) of
             Inl e \<Rightarrow> Inl e
           | Inr (st1, True) \<Rightarrow> Inr (st1, None)
           | Inr (st1, False) \<Rightarrow>
               (case bundle_link bundle of
                  None \<Rightarrow> Inl TypeError
                | Some ls \<Rightarrow>
                    (case scan_links (implementation_url cs) ls of
                       Inl e \<Rightarrow> Inl e
                     | Inr next_url' \<Rightarrow> Inr (st1, next_url')))))"

text \<open>
  The loop itself. A server whose links form a cycle keeps it running for ever, so the
  result is an option: \<open>None\<close> when the loop does not end.
\<close>

partial_function (option) fetch_loop ::
  "('w, 'r, 'a) fhir_client \<Rightarrow> capability_statement \<Rightarrow> int option \<Rightarrow> bool \<Rightarrow>
   (('a, 'r) passed \<Rightarrow> 's \<Rightarrow> error + 's) \<Rightarrow> bool \<Rightarrow> int option \<Rightarrow>
   string \<Rightarrow> 's fetch_state \<Rightarrow> (error + 's fetch_state) option"
where
  "fetch_loop fc cs limit novalidation function_to_call pass_entry_as_json tot next_url st =
     (case loop_body fc cs limit novalidation function_to_call pass_entry_as_json tot
             next_url st of
        Inl e \<Rightarrow> Some (Inl e)
      | Inr (st', None) \<Rightarrow> Some (Inr st')
      | Inr (st', Some next_url') \<Rightarrow>
          fetch_loop fc cs limit novalidation function_to_call pass_entry_as_json tot
            next_url' st')"

declare fetch_loop.simps [code]

text \<open>
  Lines 100 to 195. The result is the status code with the final state; \<open>Inl\<close> is an
  exception that leaves \<^verbatim>\<open>fetch_resources\<close>, \<open>None\<close> a run that does not end.
\<close>

definition fetch_resources ::
  "('w, 'r, 'a) fhir_client \<Rightarrow> capability_statement \<Rightarrow> string \<Rightarrow> int option \<Rightarrow> bool \<Rightarrow>
   (('a, 'r) passed \<Rightarrow> 's \<Rightarrow> error + 's) \<Rightarrow> bool \<Rightarrow> 's \<Rightarrow>
   (error + int \<times> 's fetch_state) option"
where
  "fetch_resources fc cs resource_type limit novalidation function_to_call pass_entry_as_json
     function_params =
     (let st = \<lparr>received = 0, sink = function_params, console = [], live = [],
                 requests = [resource_type @ ''?_summary=count'']\<rparr> in
      case bundle_read_from (resource_type @ ''?_summary=count'') fc novalidation of
        Inl e \<Rightarrow> Some (Inr (1, st\<lparr>console := [Error_while_reading e]\<rparr>))
      | Inr bundle \<Rightarrow>
          if bundle_total bundle = Some 0
          then Some (Inr (1, st\<lparr>console := [No_resources_found resource_type]\<rparr>))
          else
            (case fetch_loop fc cs limit novalidation function_to_call pass_entry_as_json
                    (bundle_total bundle) resource_type
                    (st\<lparr>console :=
                         Fetching_resources (bundle_total bundle) resource_type #
                         (if novalidation then [Notice_validation_off] else [])\<rparr>) of
               None \<Rightarrow> None
             | Some (Inl e) \<Rightarrow> Some (Inl e)
             | Some (Inr st') \<Rightarrow>
                 Some (Inr (0, st'\<lparr>console := console st' @
                                     [Received_of (received st') (bundle_total bundle)]\<rparr>))))"

subsection \<open>Inspecting a resource\<close>

text \<open>
  The call in line 324 passes \<^verbatim>\<open>process_entry\<close> with the parameters
  \<^verbatim>\<open>[items, 0, inspect_items, max_level]\<close> and asks for JSON. Were it given a resource
  object, \<^verbatim>\<open>entry.items()\<close> would raise \<^verbatim>\<open>AttributeError\<close>.
\<close>

definition profile ::
  "bool \<Rightarrow> ('a json \<Rightarrow> string) \<Rightarrow> int \<Rightarrow> ('a, 'r) passed \<Rightarrow> node \<Rightarrow> error + node"
where
  "profile inspect_items str max_level arg items =
     (case arg of
        As_json entry \<Rightarrow> process_entry inspect_items max_item_str_len str max_level entry items 0
      | As_object r \<Rightarrow> Inl AttributeError)"

text \<open>
  Lines 250 to 357. The result is the status code, the final state (whose \<open>sink\<close> is
  \<^verbatim>\<open>items\<close> as rendering leaves it) and the tree view when one was printed.
\<close>

definition inspect_resource ::
  "('w, 'r, 'a) fhir_client \<Rightarrow> capability_statement \<Rightarrow> ('a json \<Rightarrow> string) \<Rightarrow> string \<Rightarrow>
   int option \<Rightarrow> bool \<Rightarrow> int \<Rightarrow> bool \<Rightarrow>
   (error + int \<times> node fetch_state \<times> view list option) option"
where
  "inspect_resource fc cs str resource_type limit inspect_items max_level novalidation =
     (case fetch_resources fc cs resource_type limit novalidation
             (profile inspect_items str max_level) True (Branch []) of
        None \<Rightarrow> None
      | Some (Inl e) \<Rightarrow> Some (Inl e)
      | Some (Inr (status, st)) \<Rightarrow>
          if status \<noteq> 0 then Some (Inr (1, st, None))
          else
            (case sink st of
               Leaf n h \<Rightarrow> Some (Inl AttributeError)
             | Branch items \<Rightarrow>
                 (let (views, items') = build_tree inspect_items max_item_count items
                  in Some (Inr (0, st\<lparr>sink := Branch items'\<rparr>, Some views)))))"

subsection \<open>Values for the examples\<close>

text \<open>
  Records whose values other than dictionaries and lists are strings. Python's \<^verbatim>\<open>str\<close> of
  a string is the string itself; the examples apply \<open>str_text\<close> to strings only.
\<close>

fun str_text :: "string json \<Rightarrow> string" where
  "str_text (Scalar s) = s"
| "str_text v = []"

subsection \<open>Paths in the frequency tree\<close>


fun lookup_path :: "node \<Rightarrow> string list \<Rightarrow> node option" where
  "lookup_path t [] = Some t"
| "lookup_path (Leaf n h) (k # p) = None"
| "lookup_path (Branch d) (k # p) =
     (case map_of d k of None \<Rightarrow> None | Some c \<Rightarrow> lookup_path c p)"



subsection \<open>Auxiliary notions for the statements\<close>

text \<open>What line 341 and the recursion of \<^verbatim>\<open>build_tree\<close> do to one node of the tree.\<close>

definition render_node :: "bool \<Rightarrow> nat \<Rightarrow> node \<Rightarrow> node" where
  "render_node inspect_items max_count c =
     (case c of
        Leaf n h \<Rightarrow> Leaf n (if inspect_items then top_values max_count h else h)
      | Branch d \<Rightarrow> Branch (snd (build_tree inspect_items max_count d)))"

text \<open>A histogram with 51 values, one more than \<^verbatim>\<open>max_item_count\<close>.\<close>

definition many_values :: "(string \<times> int) list" where
  "many_values = map (\<lambda>i. (replicate i (CHR ''a''), 1)) [0..<51]"

text \<open>
  The cursor as the specification words it: the link without the base URL in front and
  without one leading \<^verbatim>\<open>/\<close>.
\<close>

definition spec_cursor :: "string \<Rightarrow> string \<Rightarrow> string" where
  "spec_cursor impl_url url =
     (case drop (length impl_url) url of
        c # rest \<Rightarrow> if c = CHR ''/'' then rest else c # rest
      | [] \<Rightarrow> [])"

text \<open>
  The line or group that a view holds at a path of keys, for reading what
  \<^verbatim>\<open>build_tree\<close> has rendered for a node of the tree; \<open>node_view\<close> is what it renders
  for one node under its key.
\<close>

fun view_key :: "view \<Rightarrow> string" where
  "view_key (Line key n shown) = key"
| "view_key (Group key sub) = key"

fun lookup_view :: "view list \<Rightarrow> string list \<Rightarrow> view option" where
  "lookup_view vs [] = None"
| "lookup_view vs [k] = find (\<lambda>v. view_key v = k) vs"
| "lookup_view vs (k # k' # p) =
     (case find (\<lambda>v. view_key v = k) vs of
        Some (Group g sub) \<Rightarrow> lookup_view sub (k' # p)
      | _ \<Rightarrow> None)"

definition node_view :: "bool \<Rightarrow> nat \<Rightarrow> string \<Rightarrow> node \<Rightarrow> view" where
  "node_view inspect_items max_count key c =
     (case c of
        Leaf n h \<Rightarrow> Line key n (if inspect_items then Some (top_values max_count h) else None)
      | Branch d \<Rightarrow> Group key (fst (build_tree inspect_items max_count d)))"


subsection \<open>Sequences of pages\<close>

text \<open>
  \<open>linked fc cs novalidation c ps e\<close>: the server answers the cursor \<open>c\<close> with the first
  bundle of \<open>ps\<close>, the \<^verbatim>\<open>next\<close> link of each bundle gives the cursor that the server
  answers with the bundle behind it, and each bundle is listed with its cursor. With
  \<open>e = None\<close> the last bundle of \<open>ps\<close> has links but none with the relation \<^verbatim>\<open>next\<close>;
  with \<open>e = Some c'\<close> the \<^verbatim>\<open>next\<close> link of the last bundle gives the cursor \<open>c'\<close>.
\<close>

fun linked ::
  "('w, 'r, 'a) fhir_client \<Rightarrow> capability_statement \<Rightarrow> bool \<Rightarrow> string \<Rightarrow>
   (string \<times> 'r fhir_bundle) list \<Rightarrow> string option \<Rightarrow> bool"
where
  "linked fc cs novalidation c [] e = (e = Some c)"
| "linked fc cs novalidation c ((u, b) # ps) e =
     (u = c \<and> bundle_read_from c fc novalidation = Inr b \<and>
      (case bundle_link b of
         None \<Rightarrow> False
       | Some ls \<Rightarrow>
           (case scan_links (implementation_url cs) ls of
              Inl x \<Rightarrow> False
            | Inr None \<Rightarrow> ps = [] \<and> e = None
            | Inr (Some c') \<Rightarrow> linked fc cs novalidation c' ps e)))"

text \<open>The entries of a sequence of bundles, in order; a bundle without entry list has none.\<close>

definition entries_of :: "'r fhir_bundle list \<Rightarrow> 'r list" where
  "entries_of bs = concat (map (\<lambda>b. case bundle_entry b of None \<Rightarrow> [] | Some es \<Rightarrow> es) bs)"

text \<open>
  The texts that the live display is given for a sequence of bundles, when \<^verbatim>\<open>received\<close>
  starts at \<open>rec\<close>: one for each bundle that has an entry list.
\<close>

fun progress :: "int \<Rightarrow> int option \<Rightarrow> 'r fhir_bundle list \<Rightarrow> (int \<times> int option) list" where
  "progress rec tot [] = []"
| "progress rec tot (b # bs) =
     (case bundle_entry b of
        None \<Rightarrow> progress rec tot bs
      | Some es \<Rightarrow> (rec + int (length es), tot) # progress (rec + int (length es)) tot bs)"

text \<open>The limit, when there is one, is above \<open>n\<close>.\<close>

definition below_limit :: "int option \<Rightarrow> int \<Rightarrow> bool" where
  "below_limit limit n = (case limit of None \<Rightarrow> True | Some l \<Rightarrow> n < l)"

text \<open>The state of the loop when the bundles \<open>ps\<close> have been handled and the sink has reached \<open>s'\<close>.\<close>

definition after_pages ::
  "int option \<Rightarrow> (string \<times> 'r fhir_bundle) list \<Rightarrow> 's \<Rightarrow> 's fetch_state \<Rightarrow> 's fetch_state"
where
  "after_pages tot ps s' st =
     st\<lparr>received := received st + int (length (entries_of (map snd ps))),
        sink := s',
        live := live st @ progress (received st) tot (map snd ps),
        requests := requests st @ map fst ps\<rparr>"

subsection \<open>A server for the examples\<close>

text \<open>
  A sink that keeps what it is given, as the table of \<^verbatim>\<open>list_structure_definitions\<close> does.
\<close>

definition collect_rows :: "('a, 'r) passed \<Rightarrow> ('a, 'r) passed list \<Rightarrow> error + ('a, 'r) passed list" where
  "collect_rows arg rows = Inr (rows @ [arg])"

text \<open>
  A server with the base URL \<^verbatim>\<open>http://x/fhir\<close>. It has 15 patients on three pages of
  five. It has observations on four pages; the third page does not pass strict
  validation, and without validation it arrives with no entry list. It has three
  encounters on two pages; the bundle of the second page has no \<^verbatim>\<open>link\<close> element.
\<close>

definition example_statement :: capability_statement where
  "example_statement = \<lparr>implementation_url = ''http://x/fhir''\<rparr>"

definition links_to :: "string \<Rightarrow> link list" where
  "links_to url =
     [\<lparr>link_relation = ''self'', link_url = ''http://x/fhir''\<rparr>,
      \<lparr>link_relation = ''next'', link_url = url\<rparr>]"

definition example_request :: "string \<Rightarrow> error + nat" where
  "example_request path =
     (if path = ''Patient?_summary=count'' then Inr 10
      else if path = ''Patient'' then Inr 11
      else if path = ''Patient?page=2'' then Inr 12
      else if path = ''Patient?page=3'' then Inr 13
      else if path = ''Observation?_summary=count'' then Inr 20
      else if path = ''Observation'' then Inr 21
      else if path = ''Observation?page=2'' then Inr 22
      else if path = ''Observation?page=3'' then Inr 23
      else if path = ''Observation?page=4'' then Inr 24
      else if path = ''Encounter?_summary=count'' then Inr 30
      else if path = ''Encounter'' then Inr 31
      else if path = ''Encounter?page=2'' then Inr 32
      else Inl (Exception ''404''))"

definition example_page :: "nat \<Rightarrow> string fhir_bundle" where
  "example_page ret =
     (if ret = 10 then
        \<lparr>bundle_total = Some 15, bundle_entry = None, bundle_link = None\<rparr>
      else if ret = 11 then
        \<lparr>bundle_total = Some 15,
         bundle_entry = Some [''p01'', ''p02'', ''p03'', ''p04'', ''p05''],
         bundle_link = Some (links_to ''http://x/fhir/Patient?page=2'')\<rparr>
      else if ret = 12 then
        \<lparr>bundle_total = Some 15,
         bundle_entry = Some [''p06'', ''p07'', ''p08'', ''p09'', ''p10''],
         bundle_link = Some (links_to ''http://x/fhir/Patient?page=3'')\<rparr>
      else if ret = 13 then
        \<lparr>bundle_total = Some 15,
         bundle_entry = Some [''p11'', ''p12'', ''p13'', ''p14'', ''p15''],
         bundle_link = Some [\<lparr>link_relation = ''self'', link_url = ''http://x/fhir''\<rparr>]\<rparr>
      else if ret = 20 then
        \<lparr>bundle_total = Some 4, bundle_entry = None, bundle_link = None\<rparr>
      else if ret = 21 then
        \<lparr>bundle_total = Some 4, bundle_entry = Some [''o1'', ''o2''],
         bundle_link = Some (links_to ''http://x/fhir/Observation?page=2'')\<rparr>
      else if ret = 22 then
        \<lparr>bundle_total = Some 4, bundle_entry = Some [''o3''],
         bundle_link = Some (links_to ''http://x/fhir/Observation?page=3'')\<rparr>
      else if ret = 23 then
        \<lparr>bundle_total = Some 4, bundle_entry = None,
         bundle_link = Some (links_to ''http://x/fhir/Observation?page=4'')\<rparr>
      else if ret = 30 then
        \<lparr>bundle_total = Some 3, bundle_entry = None, bundle_link = None\<rparr>
      else if ret = 31 then
        \<lparr>bundle_total = Some 3, bundle_entry = Some [''e1'', ''e2''],
         bundle_link = Some (links_to ''http://x/fhir/Encounter?page=2'')\<rparr>
      else if ret = 32 then
        \<lparr>bundle_total = Some 3, bundle_entry = Some [''e3''], bundle_link = None\<rparr>
      else
        \<lparr>bundle_total = Some 4, bundle_entry = Some [''o4''],
         bundle_link = Some [\<lparr>link_relation = ''self'', link_url = ''http://x/fhir''\<rparr>]\<rparr>)"

definition example_Bundle :: "nat \<Rightarrow> bool \<Rightarrow> error + string fhir_bundle" where
  "example_Bundle ret strict =
     (if ret = 23 \<and> strict then Inl FHIRValidationError else Inr (example_page ret))"

definition id_only :: "string \<Rightarrow> (string \<times> string json) list" where
  "id_only r = [(''id'', Scalar r)]"

definition example_client :: "(nat, string, string) fhir_client" where
  "example_client =
     \<lparr>request_json = example_request, Bundle = example_Bundle, as_json = id_only\<rparr>"

section \<open>Properties\<close>

subsection \<open>Histogram keys\<close>

lemma shorten_length: "length (shorten m s) \<le> m + 3"
  by (simp add: shorten_def)

lemma map_of_count_value:
  "map_of (count_value s h) k =
     (if k = s then Some (case map_of h s of None \<Rightarrow> 1 | Some c \<Rightarrow> c + 1) else map_of h k)"
  by (simp add: count_value_def update_conv' split: option.splits)

text \<open>
  C8, as the code has it. When \<^verbatim>\<open>store_item\<close> counts an occurrence with value inspection
  switched on, the key of the histogram is the string form of the element, cut to its first
  50 characters followed by \<^verbatim>\<open>...\<close> when it has more than 53 characters and left whole
  otherwise; so no key is longer than 53 characters. The count of that key goes up by one
  (it starts at 1 for a new key), and no other key of the histogram changes.
\<close>

theorem store_item_histogram_key:
  assumes "store_item True max_item_str_len str key v (Branch d) = Inr t"
  shows "\<exists>d' n h. t = Branch d' \<and> map_of d' key = Some (Leaf n h) \<and>
     (let s = str v;
          k = (if length s > 53 then take 50 s @ ''...'' else s);
          h0 = (case map_of d key of Some (Leaf n0 h0) \<Rightarrow> h0 | _ \<Rightarrow> [])
      in length k \<le> 53 \<and>
         map_of h k = Some (case map_of h0 k of None \<Rightarrow> 1 | Some c \<Rightarrow> c + 1) \<and>
         (\<forall>k'. k' \<noteq> k \<longrightarrow> map_of h k' = map_of h0 k'))"
  using assms
  by (auto simp: Let_def update_conv' map_of_count_value shorten_def max_item_str_len_def
           split: option.splits node.splits)

theorem store_item_histogram_key_witness:
  "store_item True max_item_str_len str_text ''k'' (Scalar ''abc'') (Branch [])
     = Inr (Branch [(''k'', Leaf 1 [(''abc'', 1)])])
   \<and> (\<exists>d' n h. Branch [(''k'', Leaf 1 [(''abc'', 1)])] = Branch d' \<and>
          map_of d' ''k'' = Some (Leaf n h) \<and>
     (let s = str_text (Scalar ''abc'');
          k = (if length s > 53 then take 50 s @ ''...'' else s);
          h0 = (case map_of [] ''k'' of Some (Leaf n0 h0) \<Rightarrow> h0 | _ \<Rightarrow> [])
      in length k \<le> 53 \<and>
         map_of h k = Some (case map_of h0 k of None \<Rightarrow> 1 | Some c \<Rightarrow> c + 1) \<and>
         (\<forall>k'. k' \<noteq> k \<longrightarrow> map_of h k' = map_of h0 k')))"
proof -
  have run: "store_item True max_item_str_len str_text ''k'' (Scalar ''abc'') (Branch [])
     = Inr (Branch [(''k'', Leaf 1 [(''abc'', 1)])])"
    by (simp add: max_item_str_len_def shorten_def count_value_def)
  show ?thesis
    by (rule conjI [OF run store_item_histogram_key [OF run]])
qed

text \<open>
  A string of 51 characters is longer than 50 characters and is stored whole, without
  the three dots.
\<close>

theorem store_item_keeps_51_characters:
  "store_item True max_item_str_len str_text ''k'' (Scalar (replicate 51 (CHR ''a''))) (Branch [])
     = Inr (Branch [(''k'', Leaf 1 [(replicate 51 (CHR ''a''), 1)])])
   \<and> length (replicate 51 (CHR ''a'')) > 50"
  by (simp add: max_item_str_len_def shorten_def count_value_def)

subsection \<open>Rendering a histogram\<close>

lemma dict_of_snoc: "dict_of (xs @ [(k, v)]) = AList.update k v (dict_of xs)"
  by (simp add: dict_of_def)

lemma update_fresh: "k \<notin> fst ` set d \<Longrightarrow> AList.update k v d = d @ [(k, v)]"
  by (induction d) auto

lemma dict_of_distinct: "distinct (map fst xs) \<Longrightarrow> dict_of xs = xs"
proof (induction xs rule: rev_induct)
  case Nil
  show ?case by (simp add: dict_of_def)
next
  case (snoc x xs)
  obtain k v where x: "x = (k, v)" by (cases x)
  from snoc.prems have d: "distinct (map fst xs)" and fresh: "k \<notin> fst ` set xs"
    by (auto simp: x)
  show ?case
    using snoc.IH [OF d] fresh by (simp add: x dict_of_snoc update_fresh)
qed

lemma distinct_sorted_reverse:
  "distinct (map fst h) \<Longrightarrow> distinct (map fst (sorted_reverse h))"
  unfolding sorted_reverse_def
  by (metis distinct_map distinct_sort set_sort)

lemma top_values_eq:
  "distinct (map fst h) \<Longrightarrow> top_values m h = take m (sorted_reverse h)"
  unfolding top_values_def
  by (rule dict_of_distinct) (simp add: distinct_sorted_reverse take_map[symmetric])

lemma sorted_reverse_falling: "sorted_wrt (\<lambda>a b. snd b \<le> snd a) (sorted_reverse h)"
proof -
  have "sorted (map (\<lambda>n. - snd n) (sorted_reverse h))"
    unfolding sorted_reverse_def by (rule sorted_sort_key)
  then show ?thesis
    by (simp add: sorted_map)
qed

lemma sorted_reverse_stable:
  "filter (\<lambda>n. snd n = c) (sorted_reverse h) = filter (\<lambda>n. snd n = c) h"
proof -
  have "filter (\<lambda>n. - snd n = - c) (sort_key (\<lambda>n. - snd n) h) = filter (\<lambda>n. - snd n = - c) h"
    by (rule sort_key_stable)
  then show ?thesis by (simp add: sorted_reverse_def)
qed

lemma node_view_Leaf:
  "node_view ins m k (Leaf n h) = Line k n (if ins then Some (top_values m h) else None)"
  by (simp add: node_view_def)

lemma node_view_Branch:
  "node_view ins m k (Branch d) = Group k (fst (build_tree ins m d))"
  by (simp add: node_view_def)

lemma find_build_tree:
  "find (\<lambda>v. view_key v = k) (fst (build_tree ins m items))
     = map_option (node_view ins m k) (map_of items k)"
  by (induction ins m items rule: build_tree.induct)
     (auto simp: Let_def node_view_def split: prod.splits)

lemma lookup_view_build_tree:
  "p \<noteq> [] \<Longrightarrow>
   lookup_view (fst (build_tree ins m items)) p
     = map_option (node_view ins m (last p)) (lookup_path (Branch items) p)"
proof (induction p arbitrary: items)
  case Nil
  then show ?case by simp
next
  case (Cons k q)
  show ?case
  proof (cases q)
    case Nil
    then show ?thesis
      by (simp add: find_build_tree split: option.splits)
  next
    case (Cons k' r)
    show ?thesis
    proof (cases "map_of items k")
      case None
      then show ?thesis by (simp add: Cons find_build_tree)
    next
      case (Some c)
      show ?thesis
      proof (cases c)
        case (Leaf n h)
        with Some show ?thesis by (simp add: Cons find_build_tree node_view_Leaf)
      next
        case (Branch d)
        have "lookup_view (fst (build_tree ins m d)) q
                = map_option (node_view ins m (last q)) (lookup_path (Branch d) q)"
          by (rule Cons.IH) (simp add: Cons)
        with Some Branch show ?thesis
          by (simp add: Cons find_build_tree node_view_Branch)
      qed
    qed
  qed
qed

text \<open>
  C9. With value inspection switched on, the line of every leaf of the tree, at
  whatever path it stands, shows the first \<open>max_count\<close> pairs of its histogram ordered
  by falling count: the ordered list has the same pairs as the histogram, its counts
  never rise, and the pairs of any one count stand in the order in which the histogram
  holds them (the order of insertion). A tree that is one leaf is rendered as that one
  line.
\<close>

theorem rendered_histogram_sorted_stable:
  assumes "distinct (map fst h)"
  shows "(lookup_path (Branch items) p = Some (Leaf n h) \<longrightarrow>
            lookup_view (fst (build_tree True m items)) p
              = Some (Line (last p) n (Some (take m (sorted_reverse h)))))
       \<and> fst (build_tree True m [(key, Leaf n h)])
           = [Line key n (Some (take m (sorted_reverse h)))]
       \<and> mset (sorted_reverse h) = mset h
       \<and> sorted_wrt (\<lambda>a b. snd b \<le> snd a) (sorted_reverse h)
       \<and> (\<forall>c. filter (\<lambda>n. snd n = c) (sorted_reverse h) = filter (\<lambda>n. snd n = c) h)"
proof -
  have nested: "lookup_view (fst (build_tree True m items)) p
              = Some (Line (last p) n (Some (take m (sorted_reverse h))))"
    if l: "lookup_path (Branch items) p = Some (Leaf n h)"
  proof -
    from l have "p \<noteq> []" by (cases p) auto
    from lookup_view_build_tree [OF this, of True m items] l assms show ?thesis
      by (simp add: node_view_def top_values_eq)
  qed
  have "fst (build_tree True m [(key, Leaf n h)]) = [Line key n (Some (top_values m h))]"
    by (simp add: Let_def)
  moreover have "mset (sorted_reverse h) = mset h"
    by (simp add: sorted_reverse_def)
  ultimately show ?thesis
    using assms nested by (simp add: top_values_eq sorted_reverse_falling sorted_reverse_stable)
qed

text \<open>
  The histogram \<^verbatim>\<open>{"x":5, "y":5, "z":1}\<close> rendered with at most two entries shows
  \<^verbatim>\<open>x(5) y(5)\<close>, in this order; so does a leaf inside a branch whose histogram was
  filled in the order \<^verbatim>\<open>z\<close>, \<^verbatim>\<open>x\<close>, \<^verbatim>\<open>y\<close>.
\<close>

theorem rendered_histogram_sorted_stable_witness:
  "distinct (map fst [(''z'', 1::int), (''x'', 5), (''y'', 5)])
   \<and> lookup_path (Branch [(''a'', Branch [(''f'', Leaf 11 [(''z'', 1), (''x'', 5), (''y'', 5)])])])
        [''a'', ''f''] = Some (Leaf 11 [(''z'', 1), (''x'', 5), (''y'', 5)])
   \<and> lookup_view (fst (build_tree True 2
        [(''a'', Branch [(''f'', Leaf 11 [(''z'', 1), (''x'', 5), (''y'', 5)])])])) [''a'', ''f'']
       = Some (Line ''f'' 11 (Some [(''x'', 5), (''y'', 5)]))
   \<and> fst (build_tree True 2
        [(''a'', Branch [(''f'', Leaf 11 [(''z'', 1), (''x'', 5), (''y'', 5)])])])
       = [Group ''a'' [Line ''f'' 11 (Some [(''x'', 5), (''y'', 5)])]]
   \<and> fst (build_tree True 2 [(''f'', Leaf 11 [(''x'', 5), (''y'', 5), (''z'', 1)])])
       = [Line ''f'' 11 (Some [(''x'', 5), (''y'', 5)])]"
proof -
  have d: "distinct (map fst [(''z'', 1::int), (''x'', 5), (''y'', 5)])" by simp
  have d2: "distinct (map fst [(''x'', 5::int), (''y'', 5), (''z'', 1)])" by simp
  have l: "lookup_path (Branch [(''a'', Branch [(''f'', Leaf 11 [(''z'', 1), (''x'', 5), (''y'', 5)])])])
        [''a'', ''f''] = Some (Leaf 11 [(''z'', 1), (''x'', 5), (''y'', 5)])"
    by simp
  have s: "take 2 (sorted_reverse [(''z'', 1), (''x'', 5), (''y'', 5)]) = [(''x'', 5), (''y'', 5)]"
    "take 2 (sorted_reverse [(''x'', 5), (''y'', 5), (''z'', 1)]) = [(''x'', 5), (''y'', 5)]"
    by (simp_all add: sorted_reverse_def)
  have whole: "fst (build_tree True 2
        [(''a'', Branch [(''f'', Leaf 11 [(''z'', 1), (''x'', 5), (''y'', 5)])])])
       = [Group ''a'' [Line ''f'' 11 (Some [(''x'', 5), (''y'', 5)])]]"
    by (simp add: top_values_def sorted_reverse_def dict_of_def Let_def)
  from rendered_histogram_sorted_stable [OF d, where items = "[(''a'', Branch [(''f'', Leaf 11 [(''z'', 1), (''x'', 5), (''y'', 5)])])]"
      and p = "[''a'', ''f'']" and n = 11 and m = 2] l s
  have a: "lookup_view (fst (build_tree True 2
        [(''a'', Branch [(''f'', Leaf 11 [(''z'', 1), (''x'', 5), (''y'', 5)])])])) [''a'', ''f'']
       = Some (Line ''f'' 11 (Some [(''x'', 5), (''y'', 5)]))"
    by simp
  from rendered_histogram_sorted_stable [OF d2, where key = "''f''" and n = 11 and m = 2] s
  have b: "fst (build_tree True 2 [(''f'', Leaf 11 [(''x'', 5), (''y'', 5), (''z'', 1)])])
       = [Line ''f'' 11 (Some [(''x'', 5), (''y'', 5)])]"
    by simp
  from d l a whole b show ?thesis by (intro conjI)
qed

subsection \<open>Kinds of nodes\<close>























subsection \<open>What rendering does to the tree\<close>

lemma build_tree_keys: "map fst (snd (build_tree ins m items)) = map fst items"
  by (induction ins m items rule: build_tree.induct) (auto simp: Let_def split: prod.splits)

lemma build_tree_off: "snd (build_tree False m items) = items"
  by (induction "False" m items rule: build_tree.induct) (auto simp: Let_def split: prod.splits)

lemma build_tree_map_of:
  "map_of (snd (build_tree ins m items)) k = map_option (render_node ins m) (map_of items k)"
  by (induction ins m items rule: build_tree.induct)
     (auto simp: Let_def render_node_def split: prod.splits)

lemma lookup_path_render_node:
  "lookup_path (render_node ins m t) p = map_option (render_node ins m) (lookup_path t p)"
proof (induction p arbitrary: t)
  case Nil
  show ?case by simp
next
  case (Cons k q)
  show ?case
  proof (cases t)
    case (Leaf n h)
    then show ?thesis by (simp add: render_node_def)
  next
    case (Branch d)
    have "lookup_path (render_node ins m t) (k # q)
            = (case map_of d k of None \<Rightarrow> None | Some c \<Rightarrow> lookup_path (render_node ins m c) q)"
      by (simp add: Branch render_node_def build_tree_map_of split: option.splits)
    also have "\<dots> = map_option (render_node ins m) (lookup_path t (k # q))"
      by (simp add: Branch Cons.IH split: option.splits)
    finally show ?thesis .
  qed
qed

text \<open>
  C3, as the code has it. Rendering keeps the keys of \<^verbatim>\<open>items\<close> and their order, the
  paths of the tree, the kind of every node and the count of every leaf. Without value
  inspection the tree is unchanged. With value inspection the histogram of every leaf is
  replaced, in the tree itself, by its first \<open>max_count\<close> values in the order shown.
\<close>

theorem build_tree_changes_histograms_only:
  "snd (build_tree False m items) = items
   \<and> map fst (snd (build_tree ins m items)) = map fst items
   \<and> (lookup_path (Branch items) p = None \<longrightarrow>
        lookup_path (Branch (snd (build_tree ins m items))) p = None)
   \<and> (lookup_path (Branch items) p = Some (Leaf n h) \<longrightarrow>
        lookup_path (Branch (snd (build_tree ins m items))) p
          = Some (Leaf n (if ins then top_values m h else h)))
   \<and> (lookup_path (Branch items) p = Some (Branch d) \<longrightarrow>
        (\<exists>d'. lookup_path (Branch (snd (build_tree ins m items))) p = Some (Branch d')
           \<and> map fst d' = map fst d))"
proof -
  have r: "Branch (snd (build_tree ins m items)) = render_node ins m (Branch items)"
    by (simp add: render_node_def)
  show ?thesis
    unfolding r lookup_path_render_node
    by (auto simp: build_tree_off build_tree_keys render_node_def)
qed

theorem build_tree_changes_histograms_only_witness:
  "lookup_path (Branch [(''f'', Leaf 11 [(''z'', 1), (''x'', 5), (''y'', 5)])]) [''g''] = None
   \<and> lookup_path (Branch (snd (build_tree True 2
          [(''f'', Leaf 11 [(''z'', 1), (''x'', 5), (''y'', 5)])]))) [''g''] = None
   \<and> lookup_path (Branch [(''f'', Leaf 11 [(''z'', 1), (''x'', 5), (''y'', 5)])]) [''f'']
       = Some (Leaf 11 [(''z'', 1), (''x'', 5), (''y'', 5)])
   \<and> lookup_path (Branch (snd (build_tree True 2
          [(''f'', Leaf 11 [(''z'', 1), (''x'', 5), (''y'', 5)])]))) [''f'']
       = Some (Leaf 11 [(''x'', 5), (''y'', 5)])
   \<and> lookup_path (Branch [(''f'', Leaf 11 [(''z'', 1), (''x'', 5), (''y'', 5)])]) []
       = Some (Branch [(''f'', Leaf 11 [(''z'', 1), (''x'', 5), (''y'', 5)])])
   \<and> (\<exists>d'. lookup_path (Branch (snd (build_tree True 2
          [(''f'', Leaf 11 [(''z'', 1), (''x'', 5), (''y'', 5)])]))) [] = Some (Branch d')
         \<and> map fst d' = map fst [(''f'', Leaf 11 [(''z'', 1), (''x'', 5), (''y'', 5)])])"
  using build_tree_changes_histograms_only [where ins = True and m = 2
          and items = "[(''f'', Leaf 11 [(''z'', 1), (''x'', 5), (''y'', 5)])]"
          and p = "[''g'']"]
        build_tree_changes_histograms_only [where ins = True and m = 2
          and items = "[(''f'', Leaf 11 [(''z'', 1), (''x'', 5), (''y'', 5)])]"
          and p = "[''f'']" and n = 11 and h = "[(''z'', 1), (''x'', 5), (''y'', 5)]"]
        build_tree_changes_histograms_only [where ins = True and m = 2
          and items = "[(''f'', Leaf 11 [(''z'', 1), (''x'', 5), (''y'', 5)])]"
          and p = "[]" and d = "[(''f'', Leaf 11 [(''z'', 1), (''x'', 5), (''y'', 5)])]"]
  by (simp add: top_values_def sorted_reverse_def dict_of_def)

lemma distinct_many_values: "distinct (map fst many_values)"
proof -
  have "inj_on (\<lambda>i. replicate i (CHR ''a'')) {0..<51}"
    by (rule inj_onI) (metis length_replicate)
  then show ?thesis
    by (simp add: many_values_def comp_def distinct_map)
qed

text \<open>
  A leaf with 51 values: after \<^verbatim>\<open>build_tree\<close> has run with value inspection, the tree
  is not the tree that was accumulated.
\<close>

theorem build_tree_drops_values:
  "snd (build_tree True max_item_count [(''f'', Leaf 51 many_values)])
     \<noteq> [(''f'', Leaf 51 many_values)]"
proof
  assume "snd (build_tree True max_item_count [(''f'', Leaf 51 many_values)])
            = [(''f'', Leaf 51 many_values)]"
  then have "top_values max_item_count many_values = many_values"
    by (simp add: Let_def)
  then have "length (take max_item_count (sorted_reverse many_values)) = length many_values"
    by (simp add: top_values_eq [OF distinct_many_values])
  then have "min (length many_values) max_item_count = length many_values"
    by (simp add: sorted_reverse_def)
  then show False
    by (simp add: max_item_count_def many_values_def)
qed

subsection \<open>The next cursor\<close>

lemma sublist_ConsD: "\<not> sublist sep (c # cs) \<Longrightarrow> \<not> sublist sep cs"
  by (auto simp: sublist_Cons_right)

lemma split_from_absent:
  "\<not> sublist sep s \<Longrightarrow> split_from sep piece s = [piece @ s]"
proof (induction sep piece s rule: split_from.induct)
  case (1 sep piece)
  show ?case by simp
next
  case (2 sep piece c cs)
  have np: "take (length sep) (c # cs) \<noteq> sep"
  proof
    assume "take (length sep) (c # cs) = sep"
    then have "prefix sep (c # cs)" by (metis take_is_prefix)
    then have "sublist sep (c # cs)" by (rule prefix_imp_sublist)
    with 2 show False by simp
  qed
  from 2(3) have "\<not> sublist sep cs" by (rule sublist_ConsD)
  with 2 np show ?case by simp
qed

lemma split_from_nonempty: "split_from sep piece s \<noteq> []"
  by (induction sep piece s rule: split_from.induct) auto

lemma split_from_last:
  assumes "sep \<noteq> []"
  shows "(last (split_from sep piece s) = piece @ s \<and> \<not> sublist sep s)
       \<or> (\<exists>u t. s = u @ sep @ t \<and> last (split_from sep piece s) = t \<and> \<not> sublist sep t)"
  using assms
proof (induction sep piece s rule: split_from.induct)
  case (1 sep piece)
  then show ?case by simp
next
  case (2 sep piece c cs)
  show ?case
  proof (cases "take (length sep) (c # cs) = sep")
    case True
    let ?rest = "drop (length sep) (c # cs)"
    have s: "c # cs = sep @ ?rest"
      using True by (metis append_take_drop_id)
    have l: "last (split_from sep piece (c # cs)) = last (split_from sep [] ?rest)"
    proof -
      have "split_from sep piece (c # cs) = piece # split_from sep [] ?rest"
        using True 2(3) by simp
      then show ?thesis
        by (simp add: split_from_nonempty del: split_from.simps)
    qed
    from 2(1) [OF _ 2(3)] True 2(3)
    have "(last (split_from sep [] ?rest) = [] @ ?rest \<and> \<not> sublist sep ?rest)
       \<or> (\<exists>u t. ?rest = u @ sep @ t \<and> last (split_from sep [] ?rest) = t \<and> \<not> sublist sep t)"
      by simp
    then show ?thesis
    proof
      assume a: "last (split_from sep [] ?rest) = [] @ ?rest \<and> \<not> sublist sep ?rest"
      have "c # cs = [] @ sep @ ?rest" using s by simp
      with a l show ?thesis by (metis append_Nil)
    next
      assume "\<exists>u t. ?rest = u @ sep @ t \<and> last (split_from sep [] ?rest) = t \<and> \<not> sublist sep t"
      then obtain u t where r: "?rest = u @ sep @ t" and lt: "last (split_from sep [] ?rest) = t"
        and ns: "\<not> sublist sep t" by blast
      have "c # cs = (sep @ u) @ sep @ t" using s r by simp
      with l lt ns show ?thesis by blast
    qed
  next
    case False
    have l: "split_from sep piece (c # cs) = split_from sep (piece @ [c]) cs"
      using False by simp
    from 2(2) [OF _ 2(3)] False
    have "(last (split_from sep (piece @ [c]) cs) = (piece @ [c]) @ cs \<and> \<not> sublist sep cs)
       \<or> (\<exists>u t. cs = u @ sep @ t \<and> last (split_from sep (piece @ [c]) cs) = t \<and> \<not> sublist sep t)"
      by simp
    then show ?thesis
    proof
      assume a: "last (split_from sep (piece @ [c]) cs) = (piece @ [c]) @ cs \<and> \<not> sublist sep cs"
      have "\<not> prefix sep (c # cs)"
        using False by (metis prefix_def append_eq_conv_conj)
      with a have "\<not> sublist sep (c # cs)"
        by (simp add: sublist_Cons_right)
      with a l show ?thesis by simp
    next
      assume "\<exists>u t. cs = u @ sep @ t \<and> last (split_from sep (piece @ [c]) cs) = t \<and> \<not> sublist sep t"
      then obtain u t where r: "cs = u @ sep @ t"
        and lt: "last (split_from sep (piece @ [c]) cs) = t"
        and ns: "\<not> sublist sep t" by blast
      have "c # cs = (c # u) @ sep @ t" using r by simp
      with l lt ns show ?thesis by metis
    qed
  qed
qed


lemma scan_links_find:
  "find (\<lambda>l. link_relation l = ''next'') ls = Some l \<Longrightarrow>
   scan_links impl_url ls =
     (case derive_next_url impl_url (link_url l) of Inl e \<Rightarrow> Inl e | Inr u \<Rightarrow> Inr (Some u))"
  by (induction ls) (auto split: if_splits)

lemma derive_next_url_nonempty:
  "impl_url \<noteq> [] \<Longrightarrow>
   derive_next_url impl_url url
     = Inr (dropWhile (\<lambda>c. c = CHR ''/'') (last (split_from impl_url [] url)))"
  by (simp add: derive_next_url_def str_split_def str_lstrip_def)

lemma split_from_prefix:
  assumes "sep \<noteq> []"
  shows "split_from sep piece (sep @ rest) = piece # split_from sep [] rest"
proof -
  obtain c cs where s: "sep @ rest = c # cs"
    using assms by (cases sep) auto
  have "take (length sep) (c # cs) = sep" "drop (length sep) (c # cs) = rest"
    using s [symmetric] by simp_all
  with assms show ?thesis
    unfolding s by simp
qed

lemma derive_next_url_prefix:
  assumes "impl_url \<noteq> []" and "\<not> sublist impl_url rest"
  shows "derive_next_url impl_url (impl_url @ rest) = Inr (dropWhile (\<lambda>c. c = CHR ''/'') rest)"
  using assms
  by (simp add: derive_next_url_nonempty split_from_prefix split_from_absent)

lemma spec_cursor_prefix:
  assumes "\<not> prefix ''//'' rest"
  shows "spec_cursor impl_url (impl_url @ rest) = dropWhile (\<lambda>c. c = CHR ''/'') rest"
proof (cases rest)
  case Nil
  then show ?thesis by (simp add: spec_cursor_def)
next
  case (Cons c r)
  show ?thesis
  proof (cases "c = CHR ''/''")
    case False
    with Cons show ?thesis by (simp add: spec_cursor_def)
  next
    case True
    with Cons assms have "r = [] \<or> hd r \<noteq> CHR ''/''"
      by (cases r) auto
    then have "dropWhile (\<lambda>c. c = CHR ''/'') r = r"
      by (cases r) auto
    with Cons True show ?thesis by (simp add: spec_cursor_def)
  qed
qed

text \<open>
  C4, as the code has it. For a page with a \<^verbatim>\<open>next\<close> link and a non-empty base URL,
  the cursor is a final part of the link that does not contain the base URL, namely the
  whole link or what stands behind an occurrence of the base URL, with every leading
  \<^verbatim>\<open>/\<close> removed. When the base URL is a prefix of the link and does not occur in the
  rest, the cursor is that rest without its leading \<^verbatim>\<open>/\<close> characters; when the rest
  does not begin with \<^verbatim>\<open>//\<close>, this is the link without the prefix and without one
  leading \<^verbatim>\<open>/\<close>.
\<close>

theorem next_cursor_derivation:
  assumes "implementation_url cs \<noteq> []"
    and "find (\<lambda>l. link_relation l = ''next'') ls = Some l"
  shows "(\<exists>t. scan_links (implementation_url cs) ls
                = Inr (Some (dropWhile (\<lambda>c. c = CHR ''/'') t))
            \<and> \<not> sublist (implementation_url cs) t
            \<and> (t = link_url l \<or> (\<exists>u. link_url l = u @ implementation_url cs @ t)))
       \<and> (link_url l = implementation_url cs @ rest \<longrightarrow>
            \<not> sublist (implementation_url cs) rest \<longrightarrow>
            scan_links (implementation_url cs) ls
              = Inr (Some (dropWhile (\<lambda>c. c = CHR ''/'') rest))
            \<and> (\<not> prefix ''//'' rest \<longrightarrow>
                 scan_links (implementation_url cs) ls
                   = Inr (Some (spec_cursor (implementation_url cs) (link_url l)))))"
proof -
  let ?b = "implementation_url cs"
  have scan: "scan_links ?b ls
        = Inr (Some (dropWhile (\<lambda>c. c = CHR ''/'') (last (split_from ?b [] (link_url l)))))"
    using scan_links_find [OF assms(2)] derive_next_url_nonempty [OF assms(1)] by simp
  have first: "\<exists>t. scan_links ?b ls = Inr (Some (dropWhile (\<lambda>c. c = CHR ''/'') t))
            \<and> \<not> sublist ?b t \<and> (t = link_url l \<or> (\<exists>u. link_url l = u @ ?b @ t))"
    using split_from_last [OF assms(1), of "[]" "link_url l"] scan by auto
  have second: "scan_links ?b ls = Inr (Some (dropWhile (\<lambda>c. c = CHR ''/'') rest))
            \<and> (\<not> prefix ''//'' rest \<longrightarrow>
                 scan_links ?b ls = Inr (Some (spec_cursor ?b (link_url l))))"
    if u: "link_url l = ?b @ rest" and n: "\<not> sublist ?b rest"
  proof -
    have "scan_links ?b ls = Inr (Some (dropWhile (\<lambda>c. c = CHR ''/'') rest))"
      using scan_links_find [OF assms(2)] derive_next_url_prefix [OF assms(1) n] u by simp
    then show ?thesis
      using spec_cursor_prefix [of rest ?b] u by simp
  qed
  from first second show ?thesis by blast
qed

theorem next_cursor_derivation_witness:
  "''http://x/fhir'' \<noteq> []
   \<and> find (\<lambda>l. link_relation l = ''next'')
        [\<lparr>link_relation = ''self'', link_url = ''http://x/fhir/Patient''\<rparr>,
         \<lparr>link_relation = ''next'', link_url = ''http://x/fhir/Patient?page=2''\<rparr>]
       = Some \<lparr>link_relation = ''next'', link_url = ''http://x/fhir/Patient?page=2''\<rparr>
   \<and> ''http://x/fhir/Patient?page=2'' = ''http://x/fhir'' @ ''/Patient?page=2''
   \<and> \<not> sublist ''http://x/fhir'' ''/Patient?page=2''
   \<and> \<not> prefix ''//'' ''/Patient?page=2''
   \<and> spec_cursor ''http://x/fhir'' ''http://x/fhir/Patient?page=2'' = ''Patient?page=2''
   \<and> scan_links ''http://x/fhir''
        [\<lparr>link_relation = ''self'', link_url = ''http://x/fhir/Patient''\<rparr>,
         \<lparr>link_relation = ''next'', link_url = ''http://x/fhir/Patient?page=2''\<rparr>]
       = Inr (Some ''Patient?page=2'')"
proof -
  have n: "\<not> sublist ''http://x/fhir'' ''/Patient?page=2''"
    by (simp add: sublist_Cons_right)
  show ?thesis
    using n next_cursor_derivation [of "\<lparr>implementation_url = ''http://x/fhir''\<rparr>"
          "[\<lparr>link_relation = ''self'', link_url = ''http://x/fhir/Patient''\<rparr>,
            \<lparr>link_relation = ''next'', link_url = ''http://x/fhir/Patient?page=2''\<rparr>]"
          "\<lparr>link_relation = ''next'', link_url = ''http://x/fhir/Patient?page=2''\<rparr>"
          "''/Patient?page=2''"]
    by (simp add: spec_cursor_def)
qed

text \<open>
  The base URL is a prefix of the link in both cases; the cursor is not the link without
  that prefix and one \<^verbatim>\<open>/\<close>: every leading \<^verbatim>\<open>/\<close> goes, and the text is cut behind
  the last occurrence of the base URL.
\<close>

theorem next_cursor_strips_more:
  "prefix ''http://x/fhir'' ''http://x/fhir//Patient?page=2''
   \<and> scan_links ''http://x/fhir''
        [\<lparr>link_relation = ''next'', link_url = ''http://x/fhir//Patient?page=2''\<rparr>]
       = Inr (Some ''Patient?page=2'')
   \<and> spec_cursor ''http://x/fhir'' ''http://x/fhir//Patient?page=2'' = ''/Patient?page=2''
   \<and> prefix ''http://x/fhir'' ''http://x/fhir/Patient?page=2&from=http://x/fhir/Patient''
   \<and> scan_links ''http://x/fhir''
        [\<lparr>link_relation = ''next'',
          link_url = ''http://x/fhir/Patient?page=2&from=http://x/fhir/Patient''\<rparr>]
       = Inr (Some ''Patient'')
   \<and> spec_cursor ''http://x/fhir'' ''http://x/fhir/Patient?page=2&from=http://x/fhir/Patient''
       = ''Patient?page=2&from=http://x/fhir/Patient''"
  by (simp add: derive_next_url_def str_split_def str_lstrip_def spec_cursor_def)

subsection \<open>One pass through the loop\<close>

lemma fetch_loop_stop:
  "loop_body fc cs limit nv f pj tot c st = Inr (st', None) \<Longrightarrow>
   fetch_loop fc cs limit nv f pj tot c st = Some (Inr st')"
  by (subst fetch_loop.simps) simp

lemma fetch_loop_raise:
  "loop_body fc cs limit nv f pj tot c st = Inl e \<Longrightarrow>
   fetch_loop fc cs limit nv f pj tot c st = Some (Inl e)"
  by (subst fetch_loop.simps) simp

lemma fetch_loop_continue:
  "loop_body fc cs limit nv f pj tot c st = Inr (st', Some c') \<Longrightarrow>
   fetch_loop fc cs limit nv f pj tot c st = fetch_loop fc cs limit nv f pj tot c' st'"
  by (subst fetch_loop.simps) simp

lemma read_nonempty: "bundle_read_from c fc nv = Inr b \<Longrightarrow> c \<noteq> []"
  by (auto simp: bundle_read_from_def)

lemma scan_links_none:
  "find (\<lambda>l. link_relation l = ''next'') ls = None \<Longrightarrow> scan_links impl_url ls = Inr None"
  by (induction ls) (auto split: if_splits)


lemmas ex_defs = example_client_def example_statement_def example_request_def example_Bundle_def
  example_page_def
  links_to_def id_only_def collect_rows_def bundle_read_from_def loop_body_def handle_entries_def
  derive_next_url_def str_split_def str_lstrip_def fetch_resources_def

lemmas run_defs = ex_defs fetch_loop.simps Let_def entries_of_def below_limit_def
  max_item_str_len_def max_item_count_def profile_def inspect_resource_def


subsection \<open>Runs of the loop over a sequence of pages\<close>

lemma call_for_entries_append:
  "call_for_entries fc f pj (xs @ ys) s =
     (case call_for_entries fc f pj xs s of
        Inl e \<Rightarrow> Inl e
      | Inr s1 \<Rightarrow> call_for_entries fc f pj ys s1)"
  by (induction xs arbitrary: s) (auto split: sum.splits)

lemma loop_body_no_entries:
  assumes "bundle_read_from c fc nv = Inr b" "bundle_entry b = None" "bundle_link b = Some ls"
  shows "loop_body fc cs limit nv f pj tot c st =
     (case scan_links (implementation_url cs) ls of
        Inl e \<Rightarrow> Inl e
      | Inr nxt \<Rightarrow> Inr (st\<lparr>requests := requests st @ [c]\<rparr>, nxt))"
  using assms read_nonempty [OF assms(1)]
  by (simp add: loop_body_def split: sum.splits)

lemma loop_body_entries:
  assumes "bundle_read_from c fc nv = Inr b" "bundle_entry b = Some es" "bundle_link b = Some ls"
    and "call_for_entries fc f pj es (sink st) = Inr s1"
    and "below_limit limit (received st + int (length es))"
  shows "loop_body fc cs limit nv f pj tot c st =
     (case scan_links (implementation_url cs) ls of
        Inl e \<Rightarrow> Inl e
      | Inr nxt \<Rightarrow>
          Inr (st\<lparr>received := received st + int (length es), sink := s1,
                   live := live st @ [(received st + int (length es), tot)],
                   requests := requests st @ [c]\<rparr>, nxt))"
  using assms read_nonempty [OF assms(1)]
  by (cases limit)
     (simp_all add: loop_body_def handle_entries_def below_limit_def Let_def split: sum.splits)

lemma below_limit_mono: "below_limit limit n \<Longrightarrow> m \<le> n \<Longrightarrow> below_limit limit m"
  by (cases limit) (auto simp: below_limit_def)

lemma entries_of_Cons:
  "entries_of (b # bs) = (case bundle_entry b of None \<Rightarrow> [] | Some es \<Rightarrow> es) @ entries_of bs"
  by (simp add: entries_of_def)

lemma entries_of_Nil: "entries_of [] = []"
  by (simp add: entries_of_def)

lemma after_pages_Nil: "after_pages tot [] (sink st) st = st"
  by (simp add: after_pages_def entries_of_Nil)

lemma after_pages_Cons:
  "after_pages tot ps s' (after_pages tot [(c, b)] s1 st) = after_pages tot ((c, b) # ps) s' st"
  by (cases "bundle_entry b") (simp_all add: after_pages_def entries_of_Cons entries_of_Nil)

lemma loop_body_page:
  assumes "bundle_read_from c fc nv = Inr b" "bundle_link b = Some ls"
    and "call_for_entries fc f pj (entries_of [b]) (sink st) = Inr s1"
    and "below_limit limit (received st + int (length (entries_of [b])))"
  shows "loop_body fc cs limit nv f pj tot c st =
     (case scan_links (implementation_url cs) ls of
        Inl e \<Rightarrow> Inl e
      | Inr nxt \<Rightarrow> Inr (after_pages tot [(c, b)] s1 st, nxt))"
proof (cases "bundle_entry b")
  case None
  with assms(3) have "s1 = sink st" by (simp add: entries_of_def)
  with None show ?thesis
    by (simp add: loop_body_no_entries [OF assms(1) None assms(2)] after_pages_def entries_of_def
          split: sum.splits)
next
  case (Some es)
  with assms(3,4) have h: "call_for_entries fc f pj es (sink st) = Inr s1"
    "below_limit limit (received st + int (length es))"
    by (simp_all add: entries_of_def)
  from Some show ?thesis
    by (simp add: loop_body_entries [OF assms(1) Some assms(2) h] after_pages_def
          entries_of_def split: sum.splits)
qed

lemma run_linked:
  assumes "linked fc cs nv c ps e"
    and "call_for_entries fc f pj (entries_of (map snd ps)) (sink st) = Inr s'"
    and "below_limit limit (received st + int (length (entries_of (map snd ps))))"
  shows "fetch_loop fc cs limit nv f pj tot c st =
     (case e of
        None \<Rightarrow> Some (Inr (after_pages tot ps s' st))
      | Some c' \<Rightarrow> fetch_loop fc cs limit nv f pj tot c' (after_pages tot ps s' st))"
  using assms
proof (induction ps arbitrary: c st)
  case Nil
  then have "e = Some c" and "s' = sink st"
    by (simp_all add: entries_of_Nil)
  then show ?case by (simp add: after_pages_Nil)
next
  case (Cons p ps)
  obtain u b where p: "p = (u, b)" by (cases p)
  from Cons.prems(1) obtain ls where
    u: "u = c" and rd: "bundle_read_from c fc nv = Inr b" and ln: "bundle_link b = Some ls"
    by (auto simp: p split: option.splits)
  from Cons.prems(2) obtain s1 where
    c1: "call_for_entries fc f pj (entries_of [b]) (sink st) = Inr s1"
    and c2: "call_for_entries fc f pj (entries_of (map snd ps)) s1 = Inr s'"
    by (auto simp: p entries_of_Cons entries_of_Nil call_for_entries_append split: sum.splits)
  have len: "received st + int (length (entries_of (map snd (p # ps))))
      = received st + int (length (entries_of [b])) + int (length (entries_of (map snd ps)))"
    by (simp add: p entries_of_Cons entries_of_Nil)
  have b1: "below_limit limit (received st + int (length (entries_of [b])))"
    using Cons.prems(3) unfolding len by (rule below_limit_mono) simp
  let ?st1 = "after_pages tot [(c, b)] s1 st"
  have st1: "sink ?st1 = s1"
    "received ?st1 = received st + int (length (entries_of [b]))"
    by (simp_all add: after_pages_def)
  note body = loop_body_page [OF rd ln c1 b1, of cs tot]
  show ?case
  proof (cases "scan_links (implementation_url cs) ls")
    case (Inl x)
    with Cons.prems(1) rd ln show ?thesis by (simp add: p)
  next
    case (Inr nxt)
    show ?thesis
    proof (cases nxt)
      case None
      with Cons.prems(1) rd ln Inr have e: "ps = []" "e = None"
        by (simp_all add: p)
      with c2 have "s' = s1" by (simp add: entries_of_Nil)
      moreover from body Inr None have "fetch_loop fc cs limit nv f pj tot c st = Some (Inr ?st1)"
        by (simp add: fetch_loop_stop)
      ultimately show ?thesis using e u by (simp add: p)
    next
      case (Some c')
      with Cons.prems(1) rd ln Inr have l: "linked fc cs nv c' ps e"
        by (simp add: p)
      have b2: "below_limit limit (received ?st1 + int (length (entries_of (map snd ps))))"
        using Cons.prems(3) unfolding len st1 .
      from body Inr Some
      have "fetch_loop fc cs limit nv f pj tot c st = fetch_loop fc cs limit nv f pj tot c' ?st1"
        by (simp add: fetch_loop_continue)
      also have "\<dots> = (case e of
            None \<Rightarrow> Some (Inr (after_pages tot ps s' ?st1))
          | Some c'' \<Rightarrow> fetch_loop fc cs limit nv f pj tot c'' (after_pages tot ps s' ?st1))"
        using Cons.IH [OF l _ b2] c2 st1 by simp
      finally show ?thesis
        by (cases e) (simp_all add: after_pages_Cons p u)
    qed
  qed
qed

lemma handle_entries_requests:
  "handle_entries fc limit f pj tot es st = Inr (st1, stop) \<Longrightarrow> requests st1 = requests st"
  by (auto simp: handle_entries_def Let_def split: sum.splits option.splits if_splits)

lemma loop_body_requests:
  assumes "loop_body fc cs limit nv f pj tot c st = Inr (st1, nxt)" "c \<noteq> []"
  shows "requests st1 = requests st @ [c]"
  using assms
  by (auto simp: loop_body_def Let_def split: sum.splits option.splits error.splits bool.splits
           dest!: handle_entries_requests)

lemma loop_body_next:
  assumes "loop_body fc cs limit nv f pj tot c st = Inr (st1, Some c')"
    and "bundle_read_from c fc nv = Inr b" "bundle_link b = Some ls"
  shows "scan_links (implementation_url cs) ls = Inr (Some c')"
  using assms
  by (auto simp: loop_body_def Let_def split: sum.splits option.splits bool.splits)

lemma linked_terminates:
  assumes "linked fc cs nv c ps None"
  shows "\<exists>r. fetch_loop fc cs limit nv f pj tot c st = Some r \<and>
           (\<forall>st'. r = Inr st' \<longrightarrow> (\<exists>k. requests st' = requests st @ take k (map fst ps)))"
  using assms
proof (induction ps arbitrary: c st)
  case Nil
  then show ?case by simp
next
  case (Cons p ps)
  obtain u b where p: "p = (u, b)" by (cases p)
  from Cons.prems obtain ls where
    u: "u = c" and rd: "bundle_read_from c fc nv = Inr b" and ln: "bundle_link b = Some ls"
    by (auto simp: p split: option.splits)
  have ne: "c \<noteq> []" using rd by (rule read_nonempty)
  show ?case
  proof (cases "loop_body fc cs limit nv f pj tot c st")
    case (Inl e)
    then show ?thesis by (simp add: fetch_loop_raise)
  next
    case (Inr res)
    obtain st1 nxt where res: "res = (st1, nxt)" by (cases res)
    have rq: "requests st1 = requests st @ [c]"
      using Inr ne unfolding res by (rule loop_body_requests)
    show ?thesis
    proof (cases nxt)
      case None
      with Inr res have "fetch_loop fc cs limit nv f pj tot c st = Some (Inr st1)"
        by (simp add: fetch_loop_stop)
      moreover have "requests st1 = requests st @ take 1 (map fst (p # ps))"
        using rq by (simp add: p u)
      ultimately show ?thesis by blast
    next
      case (Some c')
      with Inr res have body: "loop_body fc cs limit nv f pj tot c st = Inr (st1, Some c')"
        by simp
      from loop_body_next [OF body rd ln] Cons.prems rd ln
      have l: "linked fc cs nv c' ps None" by (simp add: p)
      from Cons.IH [OF l, of st1] obtain r where
        r: "fetch_loop fc cs limit nv f pj tot c' st1 = Some r"
        and q: "\<forall>st'. r = Inr st' \<longrightarrow> (\<exists>k. requests st' = requests st1 @ take k (map fst ps))"
        by blast
      have "fetch_loop fc cs limit nv f pj tot c st = Some r"
        using fetch_loop_continue [OF body] r by simp
      moreover have "\<exists>k. requests st' = requests st @ take k (map fst (p # ps))" if "r = Inr st'" for st'
      proof -
        from q that obtain k where "requests st' = requests st1 @ take k (map fst ps)" by blast
        then have "requests st' = requests st @ take (Suc k) (map fst (p # ps))"
          using rq by (simp add: p u)
        then show ?thesis by blast
      qed
      ultimately show ?thesis by blast
    qed
  qed
qed

lemma loop_body_stop_reasons:
  assumes "loop_body fc cs limit nv f pj tot c st = Inr (st1, None)"
  shows "bundle_read_from c fc nv = Inl FHIRValidationError
       \<or> (\<exists>b es l. bundle_read_from c fc nv = Inr b \<and> bundle_entry b = Some es \<and>
             limit = Some l \<and> l \<le> received st1)
       \<or> (\<exists>b ls. bundle_read_from c fc nv = Inr b \<and> bundle_link b = Some ls \<and>
             scan_links (implementation_url cs) ls = Inr None)"
  using assms
  by (auto simp: loop_body_def handle_entries_def Let_def
           split: sum.splits option.splits error.splits bool.splits if_splits)

lemma handle_entries_result:
  assumes "handle_entries fc limit f pj tot es st = Inr (st1, stop)"
  shows "received st1 = received st + int (length es)
       \<and> (stop \<longleftrightarrow> (\<exists>l. limit = Some l \<and> l \<le> received st1))"
  using assms
  by (auto simp: handle_entries_def Let_def split: sum.splits option.splits if_splits)

lemma loop_body_with_entries:
  assumes "loop_body fc cs limit nv f pj tot c st = Inr (st1, nxt)"
    and "bundle_read_from c fc nv = Inr b" "bundle_entry b = Some es"
  shows "\<exists>stop. handle_entries fc limit f pj tot es (st\<lparr>requests := requests st @ [c]\<rparr>)
                  = Inr (st1, stop) \<and> (stop \<longrightarrow> nxt = None)"
  using assms read_nonempty [OF assms(2)]
  by (auto simp: loop_body_def Let_def split: sum.splits option.splits bool.splits)

lemma loop_body_without_entries:
  assumes "loop_body fc cs limit nv f pj tot c st = Inr (st1, nxt)"
    and "bundle_read_from c fc nv = Inr b" "bundle_entry b = None"
  shows "st1 = st\<lparr>requests := requests st @ [c]\<rparr>"
  using assms read_nonempty [OF assms(2)]
  by (auto simp: loop_body_def Let_def split: sum.splits option.splits bool.splits)

lemma loop_body_failed_read:
  assumes "loop_body fc cs limit nv f pj tot c st = Inr (st1, nxt)"
    and "bundle_read_from c fc nv = Inl e"
  shows "received st1 = received st \<and> sink st1 = sink st \<and> nxt = None"
  using assms
  by (auto simp: loop_body_def Let_def split: error.splits if_splits)

lemma loop_body_bound:
  assumes "loop_body fc cs (Some L) nv f pj tot c st = Inr (st1, nxt)" "received st \<le> L"
  shows "(nxt \<noteq> None \<longrightarrow> received st1 \<le> L) \<and>
         (received st1 \<le> L \<or>
          (\<exists>b es. bundle_read_from (last (requests st1)) fc nv = Inr b \<and>
             bundle_entry b = Some es \<and> received st1 \<le> L + int (length es)))"
proof (cases "bundle_read_from c fc nv")
  case (Inl e)
  from loop_body_failed_read [OF assms(1) Inl] assms(2) show ?thesis by simp
next
  case (Inr b)
  then have ne: "c \<noteq> []" by (rule read_nonempty)
  have rq: "last (requests st1) = c"
    using loop_body_requests [OF assms(1) ne] by simp
  show ?thesis
  proof (cases "bundle_entry b")
    case None
    from loop_body_without_entries [OF assms(1) Inr None] assms(2) show ?thesis by simp
  next
    case (Some es)
    from loop_body_with_entries [OF assms(1) Inr Some] obtain stop where
      h: "handle_entries fc (Some L) f pj tot es (st\<lparr>requests := requests st @ [c]\<rparr>)
            = Inr (st1, stop)"
      and s: "stop \<longrightarrow> nxt = None"
      by blast
    from handle_entries_result [OF h]
    have r: "received st1 = received st + int (length es)" and t: "stop \<longleftrightarrow> L \<le> received st1"
      by simp_all
    show ?thesis
    proof (cases stop)
      case True
      with s r assms(2) rq Inr Some show ?thesis by simp
    next
      case False
      with t show ?thesis by simp
    qed
  qed
qed

lemma fetch_loop_bound:
  assumes "fetch_loop fc cs limit nv f pj tot c st = Some r"
  shows "limit = Some L \<longrightarrow> received st \<le> L \<longrightarrow> (\<forall>st'. r = Inr st' \<longrightarrow>
          (received st' \<le> L \<or>
           (\<exists>b es. bundle_read_from (last (requests st')) fc nv = Inr b \<and>
              bundle_entry b = Some es \<and> received st' \<le> L + int (length es))))"
  using assms
proof (induct fc cs limit nv f pj tot c st r rule: fetch_loop.raw_induct)
  case (1 loop fc cs limit nv f pj tot c st r)
  show ?case
  proof (intro impI allI)
    fix st' assume lim: "limit = Some L" and le: "received st \<le> L" and r: "r = Inr st'"
    show "received st' \<le> L \<or>
           (\<exists>b es. bundle_read_from (last (requests st')) fc nv = Inr b \<and>
              bundle_entry b = Some es \<and> received st' \<le> L + int (length es))"
    proof (cases "loop_body fc cs limit nv f pj tot c st")
      case (Inl e)
      with 1(2) r show ?thesis by simp
    next
      case (Inr res)
      obtain st1 nxt where res: "res = (st1, nxt)" by (cases res)
      from Inr res lim have body: "loop_body fc cs (Some L) nv f pj tot c st = Inr (st1, nxt)"
        by simp
      note bound = loop_body_bound [OF body le]
      show ?thesis
      proof (cases nxt)
        case None
        with 1(2) Inr res r have "st' = st1" by simp
        with bound show ?thesis by simp
      next
        case (Some c')
        with 1(2) Inr res have a: "loop fc cs limit nv f pj tot c' st1 = Some r" by simp
        from Inr res Some have "loop_body fc cs limit nv f pj tot c st = Inr (st1, Some c')"
          by simp
        from fetch_loop_continue [OF this] 1(3)
        have b: "fetch_loop fc cs limit nv f pj tot c' st1 = Some r" by simp
        from 1(1) [OF a b] lim bound Some r show ?thesis by simp
      qed
    qed
  qed
qed (fact assms)





lemma linked_unique:
  "linked fc cs nv c ps None \<Longrightarrow> linked fc cs nv c ps' None \<Longrightarrow> ps = ps'"
proof (induction ps arbitrary: c ps')
  case Nil
  then show ?case by simp
next
  case (Cons p ps)
  obtain u b where p: "p = (u, b)" by (cases p)
  from Cons.prems(2) obtain p' qs where ps': "ps' = p' # qs"
    by (cases ps') auto
  obtain u' b' where p': "p' = (u', b')" by (cases p')
  from Cons.prems have same: "u = u'" "b = b'"
    by (auto simp: p ps' p')
  from Cons.prems obtain ls where ln: "bundle_link b = Some ls"
    by (auto simp: p split: option.splits)
  show ?case
  proof (cases "scan_links (implementation_url cs) ls")
    case (Inl x)
    with Cons.prems(1) ln show ?thesis by (simp add: p)
  next
    case (Inr nxt)
    show ?thesis
    proof (cases nxt)
      case None
      with Cons.prems ln Inr same show ?thesis by (simp add: p ps' p')
    next
      case (Some c')
      with Cons.prems ln Inr same have "linked fc cs nv c' ps None" "linked fc cs nv c' qs None"
        by (simp_all add: p ps' p')
      then have "ps = qs" by (rule Cons.IH)
      with same show ?thesis by (simp add: p ps' p')
    qed
  qed
qed

lemma linked_suffix:
  "linked fc cs nv c ps None \<Longrightarrow> (u, b) \<in> set ps \<Longrightarrow>
   \<exists>qs. length qs \<le> length ps \<and> linked fc cs nv u qs None \<and> qs \<noteq> []"
proof (induction ps arbitrary: c)
  case Nil
  then show ?case by simp
next
  case (Cons p ps)
  show ?case
  proof (cases "p = (u, b)")
    case True
    with Cons.prems(1) have "linked fc cs nv u (p # ps) None"
      by auto
    then show ?thesis by (intro exI [of _ "p # ps"]) simp
  next
    case False
    with Cons.prems(2) have mem: "(u, b) \<in> set ps" by simp
    obtain u0 b0 where p: "p = (u0, b0)" by (cases p)
    from mem have "ps \<noteq> []" by auto
    with Cons.prems(1) obtain c' where "linked fc cs nv c' ps None"
      by (auto simp: p split: option.splits sum.splits)
    from Cons.IH [OF this mem] show ?thesis
      by (auto intro: le_SucI)
  qed
qed

lemma linked_distinct:
  "linked fc cs nv c ps None \<Longrightarrow> distinct (map fst ps)"
proof (induction ps arbitrary: c)
  case Nil
  then show ?case by simp
next
  case (Cons p ps)
  obtain u b where p: "p = (u, b)" by (cases p)
  from Cons.prems have u: "u = c" by (simp add: p)
  have "u \<notin> fst ` set ps"
  proof
    assume "u \<in> fst ` set ps"
    then obtain b' where mem: "(u, b') \<in> set ps" by auto
    then have ne: "ps \<noteq> []" by auto
    with Cons.prems obtain c' where l: "linked fc cs nv c' ps None"
      by (auto simp: p split: option.splits sum.splits)
    from linked_suffix [OF l mem] obtain qs where
      len: "length qs \<le> length ps" and q: "linked fc cs nv u qs None"
      by blast
    from Cons.prems have "linked fc cs nv u (p # ps) None" by (simp add: u)
    from linked_unique [OF this q] len show False by auto
  qed
  moreover have "distinct (map fst ps)"
  proof (cases ps)
    case Nil
    then show ?thesis by simp
  next
    case (Cons q qs)
    with Cons.prems obtain c' where "linked fc cs nv c' ps None"
      by (auto simp: p split: option.splits sum.splits)
    then show ?thesis by (rule Cons.IH)
  qed
  ultimately show ?case by (simp add: p)
qed

text \<open>
  Pages whose bundles all have a link list. For a sequence of pages of which each but
  the last has a \<^verbatim>\<open>next\<close> link that leads to the page behind it, and the last has a
  link list without one, the loop ends, whatever the limit and
  the sink are, having requested a first part of the sequence in its order; no page is
  listed twice. When the sink accepts every record and the limit is not reached, the loop
  requests every page once, in order, and hands every entry to the sink. A pass through
  the loop ends it without an exception only after a validation error, at the limit, or
  when there is no \<^verbatim>\<open>next\<close> link; with a new cursor the loop goes on, and an exception
  leaves it.
\<close>

theorem linked_pages_visited_in_order:
  assumes "linked fc cs novalidation c ps None"
  shows "(\<exists>r. fetch_loop fc cs limit novalidation function_to_call pass_entry_as_json tot c st
                 = Some r
            \<and> (\<forall>st'. r = Inr st' \<longrightarrow>
                  (\<exists>k. requests st' = requests st @ take k (map fst ps))))
       \<and> distinct (map fst ps)
       \<and> (call_for_entries fc function_to_call pass_entry_as_json (entries_of (map snd ps))
             (sink st) = Inr s' \<longrightarrow>
          below_limit limit (received st + int (length (entries_of (map snd ps)))) \<longrightarrow>
          fetch_loop fc cs limit novalidation function_to_call pass_entry_as_json tot c st
            = Some (Inr (st\<lparr>received := received st + int (length (entries_of (map snd ps))),
                            sink := s',
                            live := live st @ progress (received st) tot (map snd ps),
                            requests := requests st @ map fst ps\<rparr>)))
       \<and> (loop_body fc cs limit novalidation function_to_call pass_entry_as_json tot u sa
             = Inr (sb, None) \<longrightarrow>
          bundle_read_from u fc novalidation = Inl FHIRValidationError
          \<or> (\<exists>b es l. bundle_read_from u fc novalidation = Inr b \<and> bundle_entry b = Some es \<and>
                limit = Some l \<and> l \<le> received sb)
          \<or> (\<exists>b ls. bundle_read_from u fc novalidation = Inr b \<and> bundle_link b = Some ls \<and>
                scan_links (implementation_url cs) ls = Inr None))
       \<and> (loop_body fc cs limit novalidation function_to_call pass_entry_as_json tot u sa
             = Inr (sb, Some c') \<longrightarrow>
          fetch_loop fc cs limit novalidation function_to_call pass_entry_as_json tot u sa
            = fetch_loop fc cs limit novalidation function_to_call pass_entry_as_json tot c' sb)
       \<and> (loop_body fc cs limit novalidation function_to_call pass_entry_as_json tot u sa
             = Inl e \<longrightarrow>
          fetch_loop fc cs limit novalidation function_to_call pass_entry_as_json tot u sa
            = Some (Inl e))"
proof (intro conjI impI)
  show "\<exists>r. fetch_loop fc cs limit novalidation function_to_call pass_entry_as_json tot c st
                 = Some r
            \<and> (\<forall>st'. r = Inr st' \<longrightarrow>
                  (\<exists>k. requests st' = requests st @ take k (map fst ps)))"
    using assms by (rule linked_terminates)
next
  show "distinct (map fst ps)"
    using assms by (rule linked_distinct)
next
  assume "call_for_entries fc function_to_call pass_entry_as_json (entries_of (map snd ps))
             (sink st) = Inr s'"
    and "below_limit limit (received st + int (length (entries_of (map snd ps))))"
  from run_linked [OF assms this, of tot]
  show "fetch_loop fc cs limit novalidation function_to_call pass_entry_as_json tot c st
            = Some (Inr (st\<lparr>received := received st + int (length (entries_of (map snd ps))),
                            sink := s',
                            live := live st @ progress (received st) tot (map snd ps),
                            requests := requests st @ map fst ps\<rparr>))"
    by (simp add: after_pages_def)
next
  assume "loop_body fc cs limit novalidation function_to_call pass_entry_as_json tot u sa
             = Inr (sb, None)"
  then show "bundle_read_from u fc novalidation = Inl FHIRValidationError
          \<or> (\<exists>b es l. bundle_read_from u fc novalidation = Inr b \<and> bundle_entry b = Some es \<and>
                limit = Some l \<and> l \<le> received sb)
          \<or> (\<exists>b ls. bundle_read_from u fc novalidation = Inr b \<and> bundle_link b = Some ls \<and>
                scan_links (implementation_url cs) ls = Inr None)"
    by (rule loop_body_stop_reasons)
next
  assume "loop_body fc cs limit novalidation function_to_call pass_entry_as_json tot u sa
             = Inr (sb, Some c')"
  then show "fetch_loop fc cs limit novalidation function_to_call pass_entry_as_json tot u sa
            = fetch_loop fc cs limit novalidation function_to_call pass_entry_as_json tot c' sb"
    by (rule fetch_loop_continue)
next
  assume "loop_body fc cs limit novalidation function_to_call pass_entry_as_json tot u sa
             = Inl e"
  then show "fetch_loop fc cs limit novalidation function_to_call pass_entry_as_json tot u sa
            = Some (Inl e)"
    by (rule fetch_loop_raise)
qed

theorem linked_pages_visited_in_order_witness:
  "linked example_client example_statement False ''Patient''
     [(''Patient'', example_page 11), (''Patient?page=2'', example_page 12),
      (''Patient?page=3'', example_page 13)] None
   \<and> call_for_entries example_client collect_rows False
        (entries_of (map snd
           [(''Patient'', example_page 11), (''Patient?page=2'', example_page 12),
            (''Patient?page=3'', example_page 13)]))
        (sink \<lparr>received = 0, sink = [], console = [], live = [], requests = []\<rparr>)
       = Inr [As_object ''p01'', As_object ''p02'', As_object ''p03'', As_object ''p04'',
              As_object ''p05'', As_object ''p06'', As_object ''p07'', As_object ''p08'',
              As_object ''p09'', As_object ''p10'', As_object ''p11'', As_object ''p12'',
              As_object ''p13'', As_object ''p14'', As_object ''p15'']
   \<and> below_limit None
        (received \<lparr>received = 0, sink = [] :: (string, string) passed list, console = [],
                    live = [], requests = []\<rparr>
         + int (length (entries_of (map snd
           [(''Patient'', example_page 11), (''Patient?page=2'', example_page 12),
            (''Patient?page=3'', example_page 13)]))))
   \<and> fetch_loop example_client example_statement None False collect_rows False (Some 15)
        ''Patient'' \<lparr>received = 0, sink = [], console = [], live = [], requests = []\<rparr>
       = Some (Inr
          \<lparr>received = 15,
           sink = [As_object ''p01'', As_object ''p02'', As_object ''p03'', As_object ''p04'',
                   As_object ''p05'', As_object ''p06'', As_object ''p07'', As_object ''p08'',
                   As_object ''p09'', As_object ''p10'', As_object ''p11'', As_object ''p12'',
                   As_object ''p13'', As_object ''p14'', As_object ''p15''],
           console = [],
           live = [(5, Some 15), (10, Some 15), (15, Some 15)],
           requests = [''Patient'', ''Patient?page=2'', ''Patient?page=3'']\<rparr>)
   \<and> distinct [''Patient'', ''Patient?page=2'', ''Patient?page=3'']
   \<and> loop_body example_client example_statement None False collect_rows False (Some 15)
        ''Patient?page=3'' \<lparr>received = 10, sink = [], console = [], live = [], requests = []\<rparr>
       = Inr (\<lparr>received = 15,
               sink = [As_object ''p11'', As_object ''p12'', As_object ''p13'', As_object ''p14'',
                       As_object ''p15''],
               console = [], live = [(15, Some 15)], requests = [''Patient?page=3'']\<rparr>, None)
   \<and> bundle_read_from ''Patient?page=3'' example_client False = Inr (example_page 13)
   \<and> bundle_link (example_page 13)
       = Some [\<lparr>link_relation = ''self'', link_url = ''http://x/fhir''\<rparr>]
   \<and> scan_links (implementation_url example_statement)
        [\<lparr>link_relation = ''self'', link_url = ''http://x/fhir''\<rparr>] = Inr None
   \<and> loop_body example_client example_statement None False collect_rows False (Some 15)
        ''Patient'' \<lparr>received = 0, sink = [], console = [], live = [], requests = []\<rparr>
       = Inr (\<lparr>received = 5,
               sink = [As_object ''p01'', As_object ''p02'', As_object ''p03'', As_object ''p04'',
                       As_object ''p05''],
               console = [], live = [(5, Some 15)], requests = [''Patient'']\<rparr>,
              Some ''Patient?page=2'')
   \<and> loop_body example_client example_statement None False collect_rows False (Some 15)
        ''Nowhere'' \<lparr>received = 0, sink = [], console = [], live = [], requests = []\<rparr>
       = Inl (Exception ''404'')
   \<and> fetch_loop example_client example_statement None False collect_rows False (Some 15)
        ''Nowhere'' \<lparr>received = 0, sink = [], console = [], live = [], requests = []\<rparr>
       = Some (Inl (Exception ''404''))"
proof -
  let ?ps = "[(''Patient'', example_page 11), (''Patient?page=2'', example_page 12),
      (''Patient?page=3'', example_page 13)]"
  let ?st = "\<lparr>received = 0, sink = [] :: (string, string) passed list, console = [],
               live = [], requests = []\<rparr>"
  have l: "linked example_client example_statement False ''Patient'' ?ps None"
    by (simp add: ex_defs)
  have s: "call_for_entries example_client collect_rows False (entries_of (map snd ?ps))
             (sink ?st)
        = Inr [As_object ''p01'', As_object ''p02'', As_object ''p03'', As_object ''p04'',
                   As_object ''p05'', As_object ''p06'', As_object ''p07'', As_object ''p08'',
                   As_object ''p09'', As_object ''p10'', As_object ''p11'', As_object ''p12'',
                   As_object ''p13'', As_object ''p14'', As_object ''p15'']"
    by (simp add: ex_defs entries_of_def)
  have b: "below_limit None (received ?st + int (length (entries_of (map snd ?ps))))"
    by (simp add: below_limit_def)
  have stop: "loop_body example_client example_statement None False collect_rows False (Some 15)
        ''Patient?page=3'' \<lparr>received = 10, sink = [], console = [], live = [], requests = []\<rparr>
       = Inr (\<lparr>received = 15,
               sink = [As_object ''p11'', As_object ''p12'', As_object ''p13'', As_object ''p14'',
                       As_object ''p15''],
               console = [], live = [(15, Some 15)], requests = [''Patient?page=3'']\<rparr>, None)"
    by (simp add: ex_defs)
  have go: "loop_body example_client example_statement None False collect_rows False (Some 15)
        ''Patient'' ?st
       = Inr (\<lparr>received = 5,
               sink = [As_object ''p01'', As_object ''p02'', As_object ''p03'', As_object ''p04'',
                       As_object ''p05''],
               console = [], live = [(5, Some 15)], requests = [''Patient'']\<rparr>,
              Some ''Patient?page=2'')"
    by (simp add: ex_defs)
  have raise: "loop_body example_client example_statement None False collect_rows False
        (Some 15) ''Nowhere'' ?st = Inl (Exception ''404'')"
    by (simp add: ex_defs)
  have last_page: "bundle_read_from ''Patient?page=3'' example_client False
        = Inr (example_page 13)"
    "bundle_link (example_page 13) = Some [\<lparr>link_relation = ''self'', link_url = ''http://x/fhir''\<rparr>]"
    "scan_links (implementation_url example_statement)
        [\<lparr>link_relation = ''self'', link_url = ''http://x/fhir''\<rparr>] = Inr None"
    by (simp_all add: ex_defs)
  note all = linked_pages_visited_in_order [OF l, where limit = None
      and function_to_call = collect_rows and pass_entry_as_json = False and tot = "Some 15"
      and st = ?st and u = "''Nowhere''" and sa = ?st and e = "Exception ''404''"]
  from all have d: "distinct (map fst ?ps)" by blast
  from all raise have r: "fetch_loop example_client example_statement None False collect_rows
      False (Some 15) ''Nowhere'' ?st = Some (Inl (Exception ''404''))"
    by blast
  from all s b have "fetch_loop example_client example_statement None False collect_rows False
      (Some 15) ''Patient'' ?st
      = Some (Inr (?st\<lparr>received := received ?st + int (length (entries_of (map snd ?ps))),
            sink := [As_object ''p01'', As_object ''p02'', As_object ''p03'', As_object ''p04'',
                   As_object ''p05'', As_object ''p06'', As_object ''p07'', As_object ''p08'',
                   As_object ''p09'', As_object ''p10'', As_object ''p11'', As_object ''p12'',
                   As_object ''p13'', As_object ''p14'', As_object ''p15''],
            live := live ?st @ progress (received ?st) (Some 15) (map snd ?ps),
            requests := requests ?st @ map fst ?ps\<rparr>))"
    by blast
  then have f: "fetch_loop example_client example_statement None False collect_rows False
      (Some 15) ''Patient'' ?st
       = Some (Inr
          \<lparr>received = 15,
           sink = [As_object ''p01'', As_object ''p02'', As_object ''p03'', As_object ''p04'',
                   As_object ''p05'', As_object ''p06'', As_object ''p07'', As_object ''p08'',
                   As_object ''p09'', As_object ''p10'', As_object ''p11'', As_object ''p12'',
                   As_object ''p13'', As_object ''p14'', As_object ''p15''],
           console = [],
           live = [(5, Some 15), (10, Some 15), (15, Some 15)],
           requests = [''Patient'', ''Patient?page=2'', ''Patient?page=3'']\<rparr>)"
    by (simp add: entries_of_def example_page_def)
  from d have d': "distinct [''Patient'', ''Patient?page=2'', ''Patient?page=3'']"
    by simp
  from l s b f d' stop last_page go raise r show ?thesis
    by (intro conjI)
qed

lemma loop_body_no_links:
  assumes "bundle_read_from c fc nv = Inr b" "bundle_link b = None"
    and "call_for_entries fc f pj (entries_of [b]) (sink st) = Inr s1"
    and "below_limit limit (received st + int (length (entries_of [b])))"
  shows "loop_body fc cs limit nv f pj tot c st = Inl TypeError"
proof (cases "bundle_entry b")
  case None
  with assms read_nonempty [OF assms(1)] show ?thesis
    by (simp add: loop_body_def)
next
  case (Some es)
  with assms(3,4) have "call_for_entries fc f pj es (sink st) = Inr s1"
    and "below_limit limit (received st + int (length es))"
    by (simp_all add: entries_of_def)
  with assms(1,2) Some read_nonempty [OF assms(1)] show ?thesis
    by (cases limit) (simp_all add: loop_body_def handle_entries_def below_limit_def Let_def)
qed

lemma entries_of_append: "entries_of (xs @ ys) = entries_of xs @ entries_of ys"
  by (simp add: entries_of_def)

text \<open>
  C6, where the code departs from it. When the bundle of the last page has no
  \<^verbatim>\<open>link\<close> element, \<^verbatim>\<open>bundle.link\<close> is \<^verbatim>\<open>None\<close> and the loop over it in line 186
  raises \<^verbatim>\<open>TypeError\<close>: after every page has been requested in order and every entry
  has gone to the sink, \<^verbatim>\<open>fetch_resources\<close> returns no status. Line 164 guards
  \<^verbatim>\<open>bundle.entry\<close> against \<^verbatim>\<open>None\<close>; line 186 has no such guard.
\<close>

theorem last_page_without_links_raises:
  assumes "bundle_read_from (resource_type @ ''?_summary=count'') fc novalidation = Inr b0"
    and "bundle_total b0 \<noteq> Some 0"
    and "linked fc cs novalidation resource_type ps (Some c)"
    and "bundle_read_from c fc novalidation = Inr b"
    and "bundle_link b = None"
    and "call_for_entries fc function_to_call pass_entry_as_json
           (entries_of (map snd ps @ [b])) function_params = Inr s'"
    and "below_limit limit (int (length (entries_of (map snd ps @ [b]))))"
  shows "fetch_resources fc cs resource_type limit novalidation function_to_call
           pass_entry_as_json function_params = Some (Inl TypeError)"
proof -
  let ?st = "\<lparr>received = 0, sink = function_params,
               console = Fetching_resources (bundle_total b0) resource_type #
                         (if novalidation then [Notice_validation_off] else []),
               live = [], requests = [resource_type @ ''?_summary=count'']\<rparr>"
  from assms(6) obtain s1 where
    c1: "call_for_entries fc function_to_call pass_entry_as_json (entries_of (map snd ps))
           (sink ?st) = Inr s1"
    and c2: "call_for_entries fc function_to_call pass_entry_as_json (entries_of [b]) s1 = Inr s'"
    by (auto simp: entries_of_append call_for_entries_append split: sum.splits)
  have b1: "below_limit limit (received ?st + int (length (entries_of (map snd ps))))"
    using assms(7) by (rule below_limit_mono) (simp add: entries_of_append)
  let ?st1 = "after_pages (bundle_total b0) ps s1 ?st"
  have "fetch_loop fc cs limit novalidation function_to_call pass_entry_as_json (bundle_total b0)
          resource_type ?st
        = fetch_loop fc cs limit novalidation function_to_call pass_entry_as_json
            (bundle_total b0) c ?st1"
    using run_linked [OF assms(3) c1 b1, of "bundle_total b0"] by simp
  also have "\<dots> = Some (Inl TypeError)"
  proof (rule fetch_loop_raise, rule loop_body_no_links [OF assms(4,5)])
    show "call_for_entries fc function_to_call pass_entry_as_json (entries_of [b]) (sink ?st1)
            = Inr s'"
      using c2 by (simp add: after_pages_def)
    show "below_limit limit (received ?st1 + int (length (entries_of [b])))"
      using assms(7) by (simp add: after_pages_def entries_of_append)
  qed
  finally show ?thesis
    using assms(1,2) by (simp add: fetch_resources_def)
qed

text \<open>
  Three encounters on two pages, the second without \<^verbatim>\<open>link\<close> element: both pages are
  read, and neither \<^verbatim>\<open>fetch_resources\<close> nor \<^verbatim>\<open>inspect_resource\<close> returns a status.
\<close>

theorem last_page_without_links_raises_witness:
  "bundle_read_from (''Encounter'' @ ''?_summary=count'') example_client False
     = Inr (example_page 30)
   \<and> bundle_total (example_page 30) \<noteq> Some 0
   \<and> linked example_client example_statement False ''Encounter''
        [(''Encounter'', example_page 31)] (Some ''Encounter?page=2'')
   \<and> bundle_read_from ''Encounter?page=2'' example_client False = Inr (example_page 32)
   \<and> bundle_link (example_page 32) = None
   \<and> call_for_entries example_client (profile False str_text 9) True
        (entries_of (map snd [(''Encounter'', example_page 31)] @ [example_page 32]))
        (Branch []) = Inr (Branch [(''id'', Leaf 3 [])])
   \<and> below_limit None
        (int (length (entries_of (map snd [(''Encounter'', example_page 31)]
                                   @ [example_page 32]))))
   \<and> fetch_resources example_client example_statement ''Encounter'' None False
        (profile False str_text 9) True (Branch []) = Some (Inl TypeError)
   \<and> inspect_resource example_client example_statement str_text ''Encounter'' None False 9
        False = Some (Inl TypeError)"
proof -
  have h1: "bundle_read_from (''Encounter'' @ ''?_summary=count'') example_client False
     = Inr (example_page 30)"
    by (simp add: ex_defs)
  have h2: "bundle_total (example_page 30) \<noteq> Some 0"
    by (simp add: ex_defs)
  have h3: "linked example_client example_statement False ''Encounter''
        [(''Encounter'', example_page 31)] (Some ''Encounter?page=2'')"
    by (simp add: ex_defs)
  have h4: "bundle_read_from ''Encounter?page=2'' example_client False = Inr (example_page 32)"
    by (simp add: ex_defs)
  have h5: "bundle_link (example_page 32) = None"
    by (simp add: ex_defs)
  have h6: "call_for_entries example_client (profile False str_text 9) True
        (entries_of (map snd [(''Encounter'', example_page 31)] @ [example_page 32]))
        (Branch []) = Inr (Branch [(''id'', Leaf 3 [])])"
    by (simp add: ex_defs entries_of_def profile_def max_item_str_len_def)
  have h7: "below_limit None
        (int (length (entries_of (map snd [(''Encounter'', example_page 31)]
                                   @ [example_page 32]))))"
    by (simp add: below_limit_def)
  note r = last_page_without_links_raises [OF h1 h2 h3 h4 h5 h6 h7]
  then have i: "inspect_resource example_client example_statement str_text ''Encounter'' None
      False 9 False = Some (Inl TypeError)"
    by (simp add: inspect_resource_def)
  from h1 h2 h3 h4 h5 h6 h7 r i show ?thesis by (intro conjI)
qed

lemma call_for_entries_collect:
  "call_for_entries fc collect_rows pj es rows
     = Inr (rows @ map (\<lambda>r. if pj then As_json (as_json fc r) else As_object r) es)"
  by (induction es arbitrary: rows) (simp_all add: collect_rows_def)

text \<open>
  C2, as the code has it. The limit is tested after the whole page has gone to the
  sink and \<^verbatim>\<open>received\<close> has grown by the size of the page; the entries reach the sink in
  the order of the page. For a limit \<open>L\<close> that is not negative, the final value of
  \<^verbatim>\<open>received\<close> is at most \<open>L\<close>, or at most \<open>L\<close> plus the size of the page requested last.
  With three pages of five patients and the limit 7, ten records are delivered.
\<close>

theorem limit_checked_after_whole_page:
  "(call_for_entries fc function_to_call pass_entry_as_json es (sink st) = Inr s' \<longrightarrow>
      handle_entries fc (Some L) function_to_call pass_entry_as_json tot es st
        = Inr (if L \<le> received st + int (length es)
               then (st\<lparr>received := received st + int (length es), sink := s',
                        live := live st @ [(received st + int (length es), tot)],
                        console := console st @ [Reached_limit L]\<rparr>, True)
               else (st\<lparr>received := received st + int (length es), sink := s',
                        live := live st @ [(received st + int (length es), tot)]\<rparr>, False)))
   \<and> call_for_entries fc collect_rows pass_entry_as_json es rows
        = Inr (rows @ map (\<lambda>r. if pass_entry_as_json then As_json (as_json fc r)
                                else As_object r) es)
   \<and> (0 \<le> L \<longrightarrow>
      fetch_resources fc cs resource_type (Some L) novalidation function_to_call
        pass_entry_as_json function_params = Some (Inr (status, st')) \<longrightarrow>
      received st' \<le> L \<or>
      (\<exists>b page. bundle_read_from (last (requests st')) fc novalidation = Inr b \<and>
         bundle_entry b = Some page \<and> received st' \<le> L + int (length page)))
   \<and> fetch_resources example_client example_statement ''Patient'' (Some 7) False
        collect_rows False []
      = Some (Inr (0,
         \<lparr>received = 10,
          sink = [As_object ''p01'', As_object ''p02'', As_object ''p03'', As_object ''p04'',
                  As_object ''p05'', As_object ''p06'', As_object ''p07'', As_object ''p08'',
                  As_object ''p09'', As_object ''p10''],
          console = [Fetching_resources (Some 15) ''Patient'', Reached_limit 7,
                     Received_of 10 (Some 15)],
          live = [(5, Some 15), (10, Some 15)],
          requests = [''Patient?_summary=count'', ''Patient'', ''Patient?page=2'']\<rparr>))"
proof (intro conjI impI)
  assume "call_for_entries fc function_to_call pass_entry_as_json es (sink st) = Inr s'"
  then show "handle_entries fc (Some L) function_to_call pass_entry_as_json tot es st
        = Inr (if L \<le> received st + int (length es)
               then (st\<lparr>received := received st + int (length es), sink := s',
                        live := live st @ [(received st + int (length es), tot)],
                        console := console st @ [Reached_limit L]\<rparr>, True)
               else (st\<lparr>received := received st + int (length es), sink := s',
                        live := live st @ [(received st + int (length es), tot)]\<rparr>, False))"
    by (simp add: handle_entries_def Let_def)
next
  show "call_for_entries fc collect_rows pass_entry_as_json es rows
        = Inr (rows @ map (\<lambda>r. if pass_entry_as_json then As_json (as_json fc r)
                                else As_object r) es)"
    by (rule call_for_entries_collect)
next
  assume L: "0 \<le> L"
    and run: "fetch_resources fc cs resource_type (Some L) novalidation function_to_call
        pass_entry_as_json function_params = Some (Inr (status, st'))"
  let ?goal = "\<lambda>s. received s \<le> L \<or>
      (\<exists>b page. bundle_read_from (last (requests s)) fc novalidation = Inr b \<and>
         bundle_entry b = Some page \<and> received s \<le> L + int (length page))"
  show "?goal st'"
  proof (cases "bundle_read_from (resource_type @ ''?_summary=count'') fc novalidation")
    case (Inl e)
    with run L show ?thesis by (auto simp: fetch_resources_def)
  next
    case (Inr b0)
    show ?thesis
    proof (cases "bundle_total b0 = Some 0")
      case True
      with run L Inr show ?thesis by (auto simp: fetch_resources_def)
    next
      case False
      let ?st = "\<lparr>received = 0, sink = function_params,
                   console = Fetching_resources (bundle_total b0) resource_type #
                             (if novalidation then [Notice_validation_off] else []),
                   live = [], requests = [resource_type @ ''?_summary=count'']\<rparr>"
      from run Inr False obtain st1 where
        loop: "fetch_loop fc cs (Some L) novalidation function_to_call pass_entry_as_json
                 (bundle_total b0) resource_type ?st = Some (Inr st1)"
        and fin: "st' = st1\<lparr>console := console st1 @
                                [Received_of (received st1) (bundle_total b0)]\<rparr>"
        by (auto simp: fetch_resources_def split: option.splits sum.splits)
      from fetch_loop_bound [OF loop, of L] L have "?goal st1" by simp
      with fin show ?thesis by simp
    qed
  qed
next
  show "fetch_resources example_client example_statement ''Patient'' (Some 7) False
        collect_rows False []
      = Some (Inr (0,
         \<lparr>received = 10,
          sink = [As_object ''p01'', As_object ''p02'', As_object ''p03'', As_object ''p04'',
                  As_object ''p05'', As_object ''p06'', As_object ''p07'', As_object ''p08'',
                  As_object ''p09'', As_object ''p10''],
          console = [Fetching_resources (Some 15) ''Patient'', Reached_limit 7,
                     Received_of 10 (Some 15)],
          live = [(5, Some 15), (10, Some 15)],
          requests = [''Patient?_summary=count'', ''Patient'', ''Patient?page=2'']\<rparr>))"
    by (simp add: ex_defs fetch_loop.simps Let_def)
qed

theorem limit_checked_after_whole_page_witness:
  "call_for_entries example_client collect_rows False [''p01'', ''p02''] [] =
     Inr [As_object ''p01'', As_object ''p02'']
   \<and> handle_entries example_client (Some 2) collect_rows False (Some 15) [''p01'', ''p02'']
        \<lparr>received = 0, sink = [], console = [], live = [], requests = []\<rparr>
       = Inr (\<lparr>received = 2, sink = [As_object ''p01'', As_object ''p02''],
               console = [Reached_limit 2], live = [(2, Some 15)], requests = []\<rparr>, True)
   \<and> (0::int) \<le> 7
   \<and> fetch_resources example_client example_statement ''Patient'' (Some 7) False
        collect_rows False []
      = Some (Inr (0,
         \<lparr>received = 10,
          sink = [As_object ''p01'', As_object ''p02'', As_object ''p03'', As_object ''p04'',
                  As_object ''p05'', As_object ''p06'', As_object ''p07'', As_object ''p08'',
                  As_object ''p09'', As_object ''p10''],
          console = [Fetching_resources (Some 15) ''Patient'', Reached_limit 7,
                     Received_of 10 (Some 15)],
          live = [(5, Some 15), (10, Some 15)],
          requests = [''Patient?_summary=count'', ''Patient'', ''Patient?page=2'']\<rparr>))
   \<and> bundle_read_from ''Patient?page=2'' example_client False = Inr (example_page 12)
   \<and> bundle_entry (example_page 12) = Some [''p06'', ''p07'', ''p08'', ''p09'', ''p10'']
   \<and> (10::int) \<le> 7 + int (length [''p06'', ''p07'', ''p08'', ''p09'', ''p10''])"
  using limit_checked_after_whole_page [where fc = example_client and function_to_call = collect_rows
          and pass_entry_as_json = False and es = "[''p01'', ''p02'']"
          and st = "\<lparr>received = 0, sink = [], console = [], live = [], requests = []\<rparr>"
          and s' = "[As_object ''p01'', As_object ''p02'']" and L = 2 and tot = "Some 15"]
        limit_checked_after_whole_page [where fc = example_client and cs = example_statement and L = 7
          and resource_type = "''Patient''" and novalidation = False
          and function_to_call = collect_rows and pass_entry_as_json = False
          and function_params = "[]" and status = 0
          and st' = "\<lparr>received = 10,
          sink = [As_object ''p01'', As_object ''p02'', As_object ''p03'', As_object ''p04'',
                  As_object ''p05'', As_object ''p06'', As_object ''p07'', As_object ''p08'',
                  As_object ''p09'', As_object ''p10''],
          console = [Fetching_resources (Some 15) ''Patient'', Reached_limit 7,
                     Received_of 10 (Some 15)],
          live = [(5, Some 15), (10, Some 15)],
          requests = [''Patient?_summary=count'', ''Patient'', ''Patient?page=2'']\<rparr>"]
  by (simp add: run_defs)

text \<open>
  With the limit \<open>- 5\<close> the loop stops after the first page of five entries:
  \<^verbatim>\<open>received\<close> is 5, which is more than the limit plus the size of that page.
\<close>

theorem negative_limit_overshoot:
  "fetch_resources example_client example_statement ''Patient'' (Some (- 5)) False
        collect_rows False []
      = Some (Inr (0,
         \<lparr>received = 5,
          sink = [As_object ''p01'', As_object ''p02'', As_object ''p03'', As_object ''p04'',
                  As_object ''p05''],
          console = [Fetching_resources (Some 15) ''Patient'', Reached_limit (- 5),
                     Received_of 5 (Some 15)],
          live = [(5, Some 15)],
          requests = [''Patient?_summary=count'', ''Patient'']\<rparr>))
   \<and> bundle_entry (example_page 11) = Some [''p01'', ''p02'', ''p03'', ''p04'', ''p05'']
   \<and> \<not> (5::int) \<le> - 5 + int (length [''p01'', ''p02'', ''p03'', ''p04'', ''p05''])"
  by (simp add: run_defs)

end
